theory Spec2Isabelle
  imports Main "HOL-Library.AList"
begin

section \<open>fastentity: the data model\<close>

text \<open>
  The development follows the latest revision of \<^verbatim>\<open>fastentity.go\<close> among the sources,
  whose \<^verbatim>\<open>find\<close> reports \<^verbatim>\<open>Entity{Text, Offset}\<close> records (the revision that the test
  file exercises). The older revisions differ from it only in names and in appending
  the bare slice \<^verbatim>\<open>rs[p1[left]:p2[right]]\<close> instead of the record; the record and field
  names used here are the exported ones of those revisions (\<^verbatim>\<open>Group\<close>, \<^verbatim>\<open>Name\<close>,
  \<^verbatim>\<open>Entities\<close>, \<^verbatim>\<open>MaxLen\<close>). Locks are left out: every function is modelled as one
  uninterrupted call.

  A Go \<^verbatim>\<open>rune\<close> is a code point held in an \<^verbatim>\<open>int32\<close>; the program only compares runes
  and hands them to library functions, and a rune is modelled by an \<open>int\<close>. A Go
  \<^verbatim>\<open>int\<close> is modelled by \<open>int\<close> too (no offset or length of the program can overflow:
  all are bounded by the input length). A Go \<^verbatim>\<open>string\<close> used as a bucket key is
  modelled by the sequence of code points of its UTF-8 text: the keys are built from
  valid UTF-8 only, and UTF-8 encodes code point sequences injectively, so two keys are
  equal as byte strings exactly when their code point sequences are equal. A panic is
  the value \<open>Inl\<close> of a result; the state a panicking call leaves behind is not
  modelled.
\<close>

type_synonym rune = int
type_synonym gostring = "rune list"

datatype panic = IndexOutOfRange | SliceBoundsOutOfRange

text \<open>
  What the program takes from the Go standard library and runtime, and is not part of
  the repository: the three functions of package \<^verbatim>\<open>unicode\<close> and the capacity that
  \<^verbatim>\<open>append\<close> gives to the array it allocates when the old one is full
  (\<open>growslice G oldCap newLen\<close>). They are parameters of every definition below.
\<close>

record golib =
  ToLower :: "rune \<Rightarrow> rune"
  IsPunct :: "rune \<Rightarrow> bool"
  IsSpace :: "rune \<Rightarrow> bool"
  growslice :: "nat \<Rightarrow> nat \<Rightarrow> nat"

text \<open>\<^verbatim>\<open>MaxEntityLen = 30\<close>, the package variable at its initial value.\<close>

definition MaxEntityLen :: int where
  "MaxEntityLen = 30"

text \<open>\<^verbatim>\<open>type pair [2]int\<close>: \<open>fst p\<close> is \<^verbatim>\<open>p[left]\<close>, \<open>snd p\<close> is \<^verbatim>\<open>p[right]\<close>.\<close>

type_synonym pair = "int \<times> int"

text \<open>A slice is its elements and its capacity.\<close>

type_synonym 'a slice = "'a list \<times> nat"

record Entity =
  Text :: "rune list"
  Offset :: int

record Group =
  Name :: string
  Entities :: "gostring \<rightharpoonup> rune list list"
  MaxLen :: int

text \<open>\<^verbatim>\<open>Store.groups\<close>, a map from names to groups, as an association list with
  \<open>map_of\<close> for lookup and \<open>AList.update\<close> for assignment.\<close>

type_synonym Store = "(string \<times> Group) list"

type_synonym results = "string \<rightharpoonup> Entity list"

text \<open>Reading a Go map of slices at a missing key gives the nil slice.\<close>

definition lookup :: "('k \<rightharpoonup> 'v list) \<Rightarrow> 'k \<Rightarrow> 'v list" where
  "lookup m k = (case m k of None \<Rightarrow> [] | Some v \<Rightarrow> v)"

text \<open>\<^verbatim>\<open>xs[i]\<close> and \<^verbatim>\<open>xs[lo:hi]\<close> with their run-time checks. (Go checks \<^verbatim>\<open>hi\<close> against the
  capacity; the model checks it against the length, which is the stricter check.)\<close>

definition index :: "'a list \<Rightarrow> int \<Rightarrow> panic + 'a" where
  "index xs i = (if 0 \<le> i \<and> i < int (length xs) then Inr (xs ! nat i) else Inl IndexOutOfRange)"

definition slice :: "'a list \<Rightarrow> int \<Rightarrow> int \<Rightarrow> panic + 'a list" where
  "slice xs lo hi =
     (if 0 \<le> lo \<and> lo \<le> hi \<and> hi \<le> int (length xs)
      then Inr (take (nat (hi - lo)) (drop (nat lo) xs))
      else Inl SliceBoundsOutOfRange)"

text \<open>\<^verbatim>\<open>append(s, n)\<close> and \<^verbatim>\<open>s[1:]\<close> on a slice with its capacity: appending to a full
  slice allocates, and the new capacity is the runtime's choice; \<^verbatim>\<open>s[1:]\<close> has one
  element and one unit of capacity less.\<close>

definition append1 :: "golib \<Rightarrow> 'a slice \<Rightarrow> 'a \<Rightarrow> 'a slice" where
  "append1 G s n =
     (if length (fst s) < snd s then (fst s @ [n], snd s)
      else (fst s @ [n], growslice G (snd s) (length (fst s) + 1)))"

definition tail1 :: "'a slice \<Rightarrow> 'a slice" where
  "tail1 s = (tl (fst s), snd s - 1)"

section \<open>shift\<close>

definition shift :: "golib \<Rightarrow> pair \<Rightarrow> pair slice \<Rightarrow> pair \<times> pair slice" where
  "shift G n s =
     (if length (fst s) = 0 then ((0, 0), append1 G s n)
      else if length (fst s) = snd s then (hd (fst s), append1 G (tail1 s) n)
      else (hd (fst s), append1 G s n))"

section \<open>hash\<close>

text \<open>\<^verbatim>\<open>string(r)\<close> for a rune: the one-character string, U+FFFD for a value that is not
  a valid code point.\<close>

definition string_of_rune :: "rune \<Rightarrow> gostring" where
  "string_of_rune r =
     (if 0 \<le> r \<and> r \<le> 0x10FFFF \<and> \<not> (0xD800 \<le> r \<and> r \<le> 0xDFFF) then [r] else [0xFFFD])"

text \<open>\<^verbatim>\<open>%03d\<close> of a length: the decimal digits, padded with zeros on the left to a
  width of three.\<close>

fun decimal :: "nat \<Rightarrow> gostring" where
  "decimal n = (if n < 10 then [48 + int n] else decimal (n div 10) @ [48 + int (n mod 10)])"

declare decimal.simps [simp del]

definition fmt_03d :: "nat \<Rightarrow> gostring" where
  "fmt_03d n = replicate (3 - length (decimal n)) 48 @ decimal n"

definition hash :: "golib \<Rightarrow> rune list \<Rightarrow> panic + gostring" where
  "hash G rs =
     (if length rs > 2 then
        (case index rs 0 of Inl e \<Rightarrow> Inl e | Inr r0 \<Rightarrow>
         case index rs 1 of Inl e \<Rightarrow> Inl e | Inr r1 \<Rightarrow>
         case index rs 2 of Inl e \<Rightarrow> Inl e | Inr r2 \<Rightarrow>
           Inr (string_of_rune (ToLower G r0) @ string_of_rune (ToLower G r1)
                @ string_of_rune (ToLower G r2) @ fmt_03d (length rs)))
      else if length rs > 1 then
        (case index rs 0 of Inl e \<Rightarrow> Inl e | Inr r0 \<Rightarrow>
         case index rs 1 of Inl e \<Rightarrow> Inl e | Inr r1 \<Rightarrow>
           Inr (string_of_rune (ToLower G r0) @ string_of_rune (ToLower G r1)
                @ fmt_03d (length rs)))
      else
        (case index rs 0 of Inl e \<Rightarrow> Inl e | Inr r0 \<Rightarrow>
           Inr (string_of_rune (ToLower G r0) @ fmt_03d (length rs))))"

text \<open>The key as the specification words it: the case-folded first one, two or three
  characters, as many as there are, then the zero-padded length.\<close>

definition hash_spec :: "golib \<Rightarrow> rune list \<Rightarrow> gostring" where
  "hash_spec G rs =
     concat (map (\<lambda>r. string_of_rune (ToLower G r)) (take (min 3 (length rs)) rs))
     @ fmt_03d (length rs)"

section \<open>New and Add\<close>

definition new_group :: "string \<Rightarrow> Group" where
  "new_group name = \<lparr>Name = name, Entities = Map.empty, MaxLen = 0\<rparr>"

definition New :: "string list \<Rightarrow> Store" where
  "New groups = foldl (\<lambda>s name. AList.update name (new_group name) s) [] groups"

text \<open>The loop of \<^verbatim>\<open>Add\<close> over the entities, on the group the store points to.\<close>

fun add_entities :: "golib \<Rightarrow> Group \<Rightarrow> rune list list \<Rightarrow> panic + Group" where
  "add_entities G g [] = Inr g"
| "add_entities G g (e # es) =
     (case hash G e of
        Inl x \<Rightarrow> Inl x
      | Inr h \<Rightarrow>
          add_entities G
            (g\<lparr>Entities := (Entities g)(h \<mapsto> lookup (Entities g) h @ [e]),
               MaxLen := (if int (length e) > MaxLen g then int (length e) else MaxLen g)\<rparr>)
            es)"

definition Add :: "golib \<Rightarrow> Store \<Rightarrow> string \<Rightarrow> rune list list \<Rightarrow> panic + Store" where
  "Add G s name entities =
     (let (g, s1) = (case map_of s name of
                       Some g \<Rightarrow> (g, s)
                     | None \<Rightarrow> (new_group name, AList.update name (new_group name) s))
      in case add_entities G g entities of
           Inl x \<Rightarrow> Inl x
         | Inr g' \<Rightarrow> Inr (AList.update name g' s1))"

section \<open>find\<close>

text \<open>
  The loops of \<^verbatim>\<open>find\<close>, innermost first. \<open>ent_match\<close> is the comparison loop
  \<^verbatim>\<open>for i, r := range ent\<close>: it returns the value of \<^verbatim>\<open>match\<close>.
\<close>

fun ent_match :: "golib \<Rightarrow> rune list \<Rightarrow> int \<Rightarrow> int \<Rightarrow> rune list \<Rightarrow> panic + bool" where
  "ent_match G rs l i [] = Inr True"
| "ent_match G rs l i (r # ent) =
     (case index rs (l + i) of
        Inl e \<Rightarrow> Inl e
      | Inr c \<Rightarrow>
          if ToLower G r \<noteq> ToLower G c then Inr False
          else ent_match G rs l (i + 1) ent)"

text \<open>\<^verbatim>\<open>results[g.name] = append(results[g.name], e)\<close>.\<close>

definition record_match :: "results \<Rightarrow> string \<Rightarrow> Entity \<Rightarrow> results" where
  "record_match res name e = res(name \<mapsto> lookup res name @ [e])"

text \<open>\<^verbatim>\<open>for _, ent := range ents\<close>: a phrase of another length leaves the loop
  (\<^verbatim>\<open>break\<close>).\<close>

fun bucket_scan ::
  "golib \<Rightarrow> rune list \<Rightarrow> string \<Rightarrow> pair \<Rightarrow> pair \<Rightarrow> rune list list \<Rightarrow> results \<Rightarrow> panic + results"
where
  "bucket_scan G rs gname p1 p2 [] res = Inr res"
| "bucket_scan G rs gname p1 p2 (ent # ents) res =
     (if int (length ent) \<noteq> snd p2 - fst p1 then Inr res
      else
        case ent_match G rs (fst p1) 0 ent of
          Inl e \<Rightarrow> Inl e
        | Inr match \<Rightarrow>
            if match then
              (case slice rs (fst p1) (snd p2) of
                 Inl e \<Rightarrow> Inl e
               | Inr t \<Rightarrow>
                   bucket_scan G rs gname p1 p2 ents
                     (record_match res gname \<lparr>Text = t, Offset = fst p1\<rparr>))
            else bucket_scan G rs gname p1 p2 ents res)"

text \<open>The body of \<^verbatim>\<open>for _, g := range groups\<close>: a group whose \<^verbatim>\<open>maxLen\<close> is below
  the candidate length is passed over (\<^verbatim>\<open>continue\<close>).\<close>

definition check_group ::
  "golib \<Rightarrow> rune list \<Rightarrow> pair \<Rightarrow> pair \<Rightarrow> Group \<Rightarrow> results \<Rightarrow> panic + results"
where
  "check_group G rs p1 p2 g res =
     (if snd p2 - fst p1 > MaxLen g then Inr res
      else
        case slice rs (fst p1) (snd p2) of
          Inl e \<Rightarrow> Inl e
        | Inr cand \<Rightarrow>
            (case hash G cand of
               Inl e \<Rightarrow> Inl e
             | Inr h \<Rightarrow>
                 (case Entities g h of
                    None \<Rightarrow> Inr res
                  | Some ents \<Rightarrow> bucket_scan G rs (Name g) p1 p2 ents res)))"

fun each_group ::
  "golib \<Rightarrow> rune list \<Rightarrow> pair \<Rightarrow> pair \<Rightarrow> Group list \<Rightarrow> results \<Rightarrow> panic + results"
where
  "each_group G rs p1 p2 [] res = Inr res"
| "each_group G rs p1 p2 (g # groups) res =
     (case check_group G rs p1 p2 g res of
        Inl e \<Rightarrow> Inl e
      | Inr res' \<Rightarrow> each_group G rs p1 p2 groups res')"

text \<open>\<^verbatim>\<open>for i := len(pairs) - 1; i >= 0; i--\<close>, as a recursion over the window listed
  from its newest span to its oldest (\<open>rev\<close> of the slice): the first candidate longer
  than \<^verbatim>\<open>MaxEntityLen\<close> leaves the loop (\<^verbatim>\<open>break\<close>).\<close>

fun walk ::
  "golib \<Rightarrow> rune list \<Rightarrow> Group list \<Rightarrow> pair \<Rightarrow> pair list \<Rightarrow> results \<Rightarrow> panic + results"
where
  "walk G rs groups p2 [] res = Inr res"
| "walk G rs groups p2 (p1 # older) res =
     (if snd p2 - fst p1 > MaxEntityLen then Inr res
      else
        case each_group G rs p1 p2 groups res of
          Inl e \<Rightarrow> Inl e
        | Inr res' \<Rightarrow> walk G rs groups p2 older res')"

text \<open>
  The variables of \<^verbatim>\<open>find\<close> that live across iterations. \<open>pushed\<close> is a history
  variable, not in the source: it records every pair handed to \<^verbatim>\<open>shift\<close>, in order, so
  that the spans the tokenizer emits can be named; nothing reads it.
\<close>

record state =
  pairs :: "pair slice"
  start :: int
  prevSpace :: bool
  results :: results
  pushed :: "pair list"

text \<open>One iteration of \<^verbatim>\<open>for off, r := range rs\<close>.\<close>

definition step :: "golib \<Rightarrow> rune list \<Rightarrow> Group list \<Rightarrow> state \<Rightarrow> nat \<Rightarrow> rune \<Rightarrow> panic + state" where
  "step G rs groups st off r =
     (let space = (IsPunct G r \<or> IsSpace G r) in
      if prevSpace st \<and> \<not> space then
        Inr (st\<lparr>start := int off, prevSpace := space\<rparr>)
      else if space \<and> \<not> prevSpace st then
        (let ps = snd (shift G (start st, int off) (pairs st)) in
         case (if length (fst ps) > 1
               then walk G rs groups (last (fst ps)) (rev (fst ps)) (results st)
               else Inr (results st)) of
           Inl e \<Rightarrow> Inl e
         | Inr res \<Rightarrow>
             Inr (st\<lparr>pairs := ps, prevSpace := space, results := res,
                     pushed := pushed st @ [(start st, int off)]\<rparr>))
      else Inr (st\<lparr>prevSpace := space\<rparr>))"

fun loop ::
  "golib \<Rightarrow> rune list \<Rightarrow> Group list \<Rightarrow> nat \<Rightarrow> rune list \<Rightarrow> state \<Rightarrow> panic + state"
where
  "loop G rs groups off [] st = Inr st"
| "loop G rs groups off (r # rest) st =
     (case step G rs groups st off r of
        Inl e \<Rightarrow> Inl e
      | Inr st' \<Rightarrow> loop G rs groups (Suc off) rest st')"

text \<open>The state before the first iteration: \<^verbatim>\<open>make([]pair, 0, 20)\<close>, \<^verbatim>\<open>start := 0\<close>,
  \<^verbatim>\<open>prevSpace := true\<close>, an empty result map.\<close>

definition init :: state where
  "init = \<lparr>pairs = ([], 20), start = 0, prevSpace = True, results = Map.empty, pushed = []\<rparr>"

definition find_state :: "golib \<Rightarrow> rune list \<Rightarrow> Group list \<Rightarrow> panic + state" where
  "find_state G rs groups = loop G rs groups 0 rs init"

definition find :: "golib \<Rightarrow> rune list \<Rightarrow> Group list \<Rightarrow> panic + results" where
  "find G rs groups =
     (case find_state G rs groups of Inl e \<Rightarrow> Inl e | Inr st \<Rightarrow> Inr (results st))"

section \<open>Find and FindAll\<close>

definition Find :: "golib \<Rightarrow> Group \<Rightarrow> rune list \<Rightarrow> panic + Entity list" where
  "Find G g rs =
     (case find G rs [g] of Inl e \<Rightarrow> Inl e | Inr ents \<Rightarrow> Inr (lookup ents (Name g)))"

text \<open>\<^verbatim>\<open>for s, g := range s.groups { result[s] = g.Find(rs) }\<close>. Go ranges over a map in
  an unspecified order; the model takes the order of the association list. Each group
  is searched on its own and written under its own key, so the order does not show in
  the result.\<close>

fun find_groups :: "golib \<Rightarrow> Store \<Rightarrow> rune list \<Rightarrow> results \<Rightarrow> panic + results" where
  "find_groups G [] rs result = Inr result"
| "find_groups G ((name, g) # s) rs result =
     (case Find G g rs of
        Inl e \<Rightarrow> Inl e
      | Inr found \<Rightarrow> find_groups G s rs (result(name \<mapsto> found)))"

definition FindAll :: "golib \<Rightarrow> Store \<Rightarrow> rune list \<Rightarrow> panic + results" where
  "FindAll G s rs = find_groups G s rs Map.empty"

section \<open>A library instance for evaluation\<close>

text \<open>
  An instance of the library parameters, used where a statement is evaluated at a
  concrete input. On the code points below 128 the three functions are those of Go's
  package \<^verbatim>\<open>unicode\<close> (\<^verbatim>\<open>ToLower\<close> adds 32 to \<^verbatim>\<open>'A'..'Z'\<close>; the ASCII characters of
  category P; tab, line feed, vertical tab, form feed, carriage return and space). The
  inputs evaluated below are ASCII, but for three Han characters in the input of the
  repository's test, which have no case and are neither punctuation nor white space in
  Go as in the instance. \<open>growslice\<close> is the rule of the gc runtime for a
  slice that grows by one element: double a capacity below 256, else add a quarter of
  it plus 192 (the rounding up to an allocation size class is left out).
\<close>

definition gc_ascii :: golib where
  "gc_ascii =
     \<lparr>ToLower = (\<lambda>r. if 65 \<le> r \<and> r \<le> 90 then r + 32 else r),
      IsPunct = (\<lambda>r. r \<in> set [33, 34, 35, 37, 38, 39, 40, 41, 42, 44, 45, 46, 47, 58, 59,
                                  63, 64, 91, 92, 93, 95, 123, 125]),
      IsSpace = (\<lambda>r. r \<in> set [9, 10, 11, 12, 13, 32]),
      growslice = (\<lambda>oldCap newLen.
         if newLen > 2 * oldCap then newLen
         else if oldCap < 256 then 2 * oldCap
         else oldCap + (oldCap + 768) div 4)\<rparr>"

text \<open>The runes of an ASCII literal.\<close>

definition runes :: "string \<Rightarrow> rune list" where
  "runes s = map (\<lambda>c. int (of_char c)) s"


section \<open>What the search reports, as functions of the spans\<close>

text \<open>A separator is a character that \<^verbatim>\<open>find\<close> classifies as \<^verbatim>\<open>space\<close>.\<close>

definition sep :: "golib \<Rightarrow> rune \<Rightarrow> bool" where
  "sep G r = (IsPunct G r \<or> IsSpace G r)"

text \<open>
  The matches of \<^verbatim>\<open>find\<close> written as list functions, one for each loop: \<open>candidate\<close> is
  the slice \<^verbatim>\<open>rs[p1[left]:p2[right]]\<close>; \<open>bucket_hits\<close> are the phrases of a bucket that the
  bucket loop matches (those before the first phrase of another length that equal the
  candidate up to case); \<open>group_hits\<close>, \<open>cand_hits\<close> and \<open>walk_hits\<close> are the records
  that one group, all groups of a name, and one walk over a list of spans (newest
  first) add for that name; \<open>all_hits\<close> are the records of a whole pass that closes
  the spans \<open>ps\<close>, in the order of \<^verbatim>\<open>append\<close>. The lemmas \<open>bucket_scan_hits\<close> to
  \<open>find_state_total\<close> below prove that the loops compute these lists.
\<close>

definition candidate :: "rune list \<Rightarrow> pair \<Rightarrow> pair \<Rightarrow> rune list" where
  "candidate rs p1 p2 = take (nat (snd p2 - fst p1)) (drop (nat (fst p1)) rs)"

definition bucket_hits :: "golib \<Rightarrow> rune list \<Rightarrow> rune list list \<Rightarrow> rune list list" where
  "bucket_hits G cand ents =
     filter (\<lambda>ent. map (ToLower G) ent = map (ToLower G) cand)
       (takeWhile (\<lambda>ent. length ent = length cand) ents)"

definition group_hits :: "golib \<Rightarrow> rune list \<Rightarrow> pair \<Rightarrow> pair \<Rightarrow> Group \<Rightarrow> Entity list" where
  "group_hits G rs p1 p2 g =
     (if snd p2 - fst p1 > MaxLen g then []
      else case Entities g (hash_spec G (candidate rs p1 p2)) of
             None \<Rightarrow> []
           | Some ents \<Rightarrow>
               map (\<lambda>ent. \<lparr>Text = candidate rs p1 p2, Offset = fst p1\<rparr>)
                 (bucket_hits G (candidate rs p1 p2) ents))"

definition cand_hits :: "golib \<Rightarrow> rune list \<Rightarrow> Group list \<Rightarrow> string \<Rightarrow> pair \<Rightarrow> pair \<Rightarrow> Entity list" where
  "cand_hits G rs groups name p1 p2 =
     concat (map (group_hits G rs p1 p2) (filter (\<lambda>g. Name g = name) groups))"

definition walk_hits :: "golib \<Rightarrow> rune list \<Rightarrow> Group list \<Rightarrow> string \<Rightarrow> pair \<Rightarrow> pair list \<Rightarrow> Entity list" where
  "walk_hits G rs groups name p2 ps =
     concat (map (\<lambda>p1. cand_hits G rs groups name p1 p2)
       (takeWhile (\<lambda>p1. \<not> snd p2 - fst p1 > MaxEntityLen) ps))"

definition all_hits :: "golib \<Rightarrow> rune list \<Rightarrow> Group list \<Rightarrow> string \<Rightarrow> pair list \<Rightarrow> Entity list" where
  "all_hits G rs groups name ps =
     concat (map (\<lambda>j. walk_hits G rs groups name (ps ! j) (rev (take (Suc j) ps)))
       [1..<length ps])"

text \<open>\<open>extends res res' f\<close>: the result map \<open>res'\<close> is \<open>res\<close> with the records \<open>f name\<close>
  appended under each name.\<close>

definition extends :: "results \<Rightarrow> results \<Rightarrow> (string \<Rightarrow> Entity list) \<Rightarrow> bool" where
  "extends res res' f = (\<forall>name. lookup res' name = lookup res name @ f name)"

section \<open>Invariants of the pass\<close>

text \<open>
  \<open>spans_ok\<close>: spans are non-empty, start at or after 0, and each lies wholly before
  the next one, a separator apart. \<open>inv st k\<close> holds of the state after \<open>k\<close> iterations:
  the spans closed so far are \<open>spans_ok\<close> and end before \<open>k\<close>; an open word starts
  after all of them; the window is a suffix of the spans closed so far, and all of
  them while it holds fewer than 20. \<open>res_inv\<close>: the result map holds \<open>all_hits\<close> of the
  spans closed so far.
\<close>

definition spans_ok :: "pair list \<Rightarrow> bool" where
  "spans_ok ps =
     ((\<forall>p\<in>set ps. 0 \<le> fst p \<and> fst p < snd p) \<and> sorted_wrt (\<lambda>p q. snd p < fst q) ps)"

definition inv :: "state \<Rightarrow> nat \<Rightarrow> bool" where
  "inv st k =
     (spans_ok (pushed st) \<and> (\<forall>p\<in>set (pushed st). snd p < int k) \<and>
      (\<not> prevSpace st \<longrightarrow>
         0 \<le> start st \<and> start st < int k \<and> (\<forall>p\<in>set (pushed st). snd p < start st)) \<and>
      (\<exists>older. pushed st = older @ fst (pairs st)) \<and>
      (length (fst (pairs st)) < 20 \<longrightarrow> snd (pairs st) = 20 \<and> fst (pairs st) = pushed st))"

definition res_inv :: "golib \<Rightarrow> rune list \<Rightarrow> Group list \<Rightarrow> state \<Rightarrow> bool" where
  "res_inv G rs groups st =
     (\<forall>name. lookup (results st) name = all_hits G rs groups name (pushed st))"

section \<open>Stores built by Add\<close>

text \<open>
  \<open>add_all\<close> runs a sequence of \<^verbatim>\<open>Add\<close> calls, \<open>phrases_of name calls\<close> are the phrases the
  calls add to the group \<open>name\<close>, in order, and \<open>max_len\<close> is their maximum length (0
  when there is none). \<open>group_ok\<close> and \<open>store_ok\<close> say what a group and a store hold
  after the calls: every phrase, none empty, in the bucket of its key.
\<close>

fun add_all :: "golib \<Rightarrow> Store \<Rightarrow> (string \<times> rune list list) list \<Rightarrow> panic + Store" where
  "add_all G s [] = Inr s"
| "add_all G s ((name, entities) # calls) =
     (case Add G s name entities of Inl e \<Rightarrow> Inl e | Inr s' \<Rightarrow> add_all G s' calls)"

definition phrases_of :: "string \<Rightarrow> (string \<times> rune list list) list \<Rightarrow> rune list list" where
  "phrases_of name calls = concat (map snd (filter (\<lambda>c. fst c = name) calls))"

definition max_len :: "rune list list \<Rightarrow> int" where
  "max_len ps = Max (set (0 # map (\<lambda>p. int (length p)) ps))"

definition group_ok :: "golib \<Rightarrow> Group \<Rightarrow> string \<Rightarrow> rune list list \<Rightarrow> bool" where
  "group_ok G g name ps =
     (Name g = name \<and> MaxLen g = max_len ps \<and> [] \<notin> set ps \<and>
      (\<forall>k. lookup (Entities g) k = filter (\<lambda>p. hash_spec G p = k) ps))"

definition store_ok :: "golib \<Rightarrow> Store \<Rightarrow> (string \<times> rune list list) list \<Rightarrow> bool" where
  "store_ok G s calls =
     (distinct (map fst s) \<and>
      (\<forall>name. name \<notin> fst ` set s \<longrightarrow> phrases_of name calls = []) \<and>
      (\<forall>name g. map_of s name = Some g \<longrightarrow> group_ok G g name (phrases_of name calls)))"

section \<open>The exhaustive walk\<close>

text \<open>
  The search as the specification's comparison words it: a walk that checks every span
  of the window and passes over a candidate longer than \<^verbatim>\<open>MaxEntityLen\<close> instead of
  stopping at it. \<open>step_exhaustive\<close>, \<open>loop_exhaustive\<close> and \<open>find_exhaustive\<close> are
  \<open>step\<close>, \<open>loop\<close> and \<open>find\<close> with this walk in the place of \<open>walk\<close>.
\<close>

fun walk_exhaustive ::
  "golib \<Rightarrow> rune list \<Rightarrow> Group list \<Rightarrow> pair \<Rightarrow> pair list \<Rightarrow> results \<Rightarrow> panic + results"
where
  "walk_exhaustive G rs groups p2 [] res = Inr res"
| "walk_exhaustive G rs groups p2 (p1 # older) res =
     (if snd p2 - fst p1 > MaxEntityLen then walk_exhaustive G rs groups p2 older res
      else
        case each_group G rs p1 p2 groups res of
          Inl e \<Rightarrow> Inl e
        | Inr res' \<Rightarrow> walk_exhaustive G rs groups p2 older res')"

definition step_exhaustive ::
  "golib \<Rightarrow> rune list \<Rightarrow> Group list \<Rightarrow> state \<Rightarrow> nat \<Rightarrow> rune \<Rightarrow> panic + state"
where
  "step_exhaustive G rs groups st off r =
     (let space = (IsPunct G r \<or> IsSpace G r) in
      if prevSpace st \<and> \<not> space then
        Inr (st\<lparr>start := int off, prevSpace := space\<rparr>)
      else if space \<and> \<not> prevSpace st then
        (let ps = snd (shift G (start st, int off) (pairs st)) in
         case (if length (fst ps) > 1
               then walk_exhaustive G rs groups (last (fst ps)) (rev (fst ps)) (results st)
               else Inr (results st)) of
           Inl e \<Rightarrow> Inl e
         | Inr res \<Rightarrow>
             Inr (st\<lparr>pairs := ps, prevSpace := space, results := res,
                     pushed := pushed st @ [(start st, int off)]\<rparr>))
      else Inr (st\<lparr>prevSpace := space\<rparr>))"

fun loop_exhaustive ::
  "golib \<Rightarrow> rune list \<Rightarrow> Group list \<Rightarrow> nat \<Rightarrow> rune list \<Rightarrow> state \<Rightarrow> panic + state"
where
  "loop_exhaustive G rs groups off [] st = Inr st"
| "loop_exhaustive G rs groups off (r # rest) st =
     (case step_exhaustive G rs groups st off r of
        Inl e \<Rightarrow> Inl e
      | Inr st' \<Rightarrow> loop_exhaustive G rs groups (Suc off) rest st')"

definition find_exhaustive :: "golib \<Rightarrow> rune list \<Rightarrow> Group list \<Rightarrow> panic + results" where
  "find_exhaustive G rs groups =
     (case loop_exhaustive G rs groups 0 rs init of
        Inl e \<Rightarrow> Inl e
      | Inr st \<Rightarrow> Inr (results st))"

text \<open>The candidate lengths \<^verbatim>\<open>p2[right] - p1[left]\<close>, for any \<open>p2\<close>, strictly increase
  along the window read from its newest span to its oldest.\<close>

definition lengths_increase :: "pair list \<Rightarrow> bool" where
  "lengths_increase w =
     (\<forall>p2::pair. sorted_wrt (\<lambda>a b. snd p2 - fst a < snd p2 - fst b) (rev w))"

section \<open>The spans of the specification's tokenizer\<close>

text \<open>
  \<open>word_span G rs s e\<close>: the half-open span \<open>[s, e)\<close> of \<open>rs\<close> is a maximal run of
  characters that are not separators.
\<close>

definition word_span :: "golib \<Rightarrow> rune list \<Rightarrow> nat \<Rightarrow> nat \<Rightarrow> bool" where
  "word_span G rs s e =
     (s < e \<and> e \<le> length rs \<and> (\<forall>i\<in>{s..<e}. \<not> sep G (rs ! i)) \<and>
      (s = 0 \<or> sep G (rs ! (s - 1))) \<and> (e = length rs \<or> sep G (rs ! e)))"

text \<open>What the tokenizer part of the state means after \<open>k\<close> iterations.\<close>

definition tok_inv :: "golib \<Rightarrow> rune list \<Rightarrow> state \<Rightarrow> nat \<Rightarrow> bool" where
  "tok_inv G rs st k =
     ((prevSpace st \<longleftrightarrow> (k = 0 \<or> sep G (rs ! (k - 1)))) \<and>
      (\<not> prevSpace st \<longrightarrow>
         0 \<le> start st \<and> nat (start st) < k \<and>
         (\<forall>i\<in>{nat (start st)..<k}. \<not> sep G (rs ! i)) \<and>
         (nat (start st) = 0 \<or> sep G (rs ! (nat (start st) - 1)))) \<and>
      set (pushed st) = {(int s, int e) | s e. word_span G rs s e \<and> e < k})"

section \<open>Occurrences of a phrase\<close>

text \<open>The number a string of decimal digits denotes (used to read the length back from
  a key).\<close>

definition undecimal :: "gostring \<Rightarrow> nat" where
  "undecimal ds = foldl (\<lambda>acc d. 10 * acc + nat (d - 48)) 0 ds"

text \<open>
  \<open>occurs_at G rs P off\<close>: the text \<open>rs\<close> contains the phrase \<open>P\<close>, up to case, at offset
  \<open>off\<close> as a sequence of whole words: the occurrence starts at the start of a word and
  ends at the end of a word, each bounded by a separator or by the boundary of the text.
  \<open>occurrence rs P off\<close> is the match record of that occurrence.
\<close>

definition occurs_at :: "golib \<Rightarrow> rune list \<Rightarrow> rune list \<Rightarrow> nat \<Rightarrow> bool" where
  "occurs_at G rs P off =
     (P \<noteq> [] \<and> off + length P \<le> length rs \<and>
      map (ToLower G) (take (length P) (drop off rs)) = map (ToLower G) P \<and>
      (off = 0 \<or> sep G (rs ! (off - 1))) \<and> \<not> sep G (rs ! off) \<and>
      \<not> sep G (rs ! (off + length P - 1)) \<and>
      (off + length P = length rs \<or> sep G (rs ! (off + length P))))"

definition occurrence :: "rune list \<Rightarrow> rune list \<Rightarrow> nat \<Rightarrow> Entity" where
  "occurrence rs P off = \<lparr>Text = take (length P) (drop off rs), Offset = int off\<rparr>"

text \<open>
  \<open>reported_at G rs P off\<close>: an occurrence that the search reports. It is no longer than
  \<^verbatim>\<open>MaxEntityLen\<close>, a separator follows it (it does not reach the end of the text), and
  some word of the text ends before the occurrence does (the last word of the
  occurrence is not the first word of the text).
\<close>

definition reported_at :: "golib \<Rightarrow> rune list \<Rightarrow> rune list \<Rightarrow> nat \<Rightarrow> bool" where
  "reported_at G rs P off =
     (occurs_at G rs P off \<and> int (length P) \<le> MaxEntityLen \<and> off + length P < length rs \<and>
      (\<exists>i\<in>{1..<off + length P}. sep G (rs ! i) \<and> \<not> sep G (rs ! (i - 1))))"

text \<open>\<open>same_phrase G P p\<close>: \<open>p\<close> is the phrase \<open>P\<close> up to case.\<close>

definition same_phrase :: "golib \<Rightarrow> rune list \<Rightarrow> rune list \<Rightarrow> bool" where
  "same_phrase G P p = (map (ToLower G) p = map (ToLower G) P)"

section \<open>Concrete stores, groups and inputs\<close>

text \<open>The values at which statements are evaluated below.\<close>

definition php_store :: Store where
  "php_store =
     [(''skills'',
       \<lparr>Name = ''skills'', Entities = [runes ''php003'' \<mapsto> [runes ''PHP'']], MaxLen = 3\<rparr>)]"

definition dup_store :: Store where
  "dup_store =
     [(''skills'',
       \<lparr>Name = ''skills'', Entities = [runes ''php003'' \<mapsto> [runes ''PHP'', runes ''php'']],
          MaxLen = 3\<rparr>)]"

definition long_phrase :: "rune list" where
  "long_phrase = runes ''abcdefghijklmnopqrstuvwxyzabcde''"

definition long_store :: Store where
  "long_store =
     [(''skills'',
       \<lparr>Name = ''skills'', Entities = [runes ''abc031'' \<mapsto> [long_phrase]], MaxLen = 31\<rparr>)]"

text \<open>A group whose bucket for the key of \<^verbatim>\<open>"abc"\<close> holds the given phrases: a value of the
  exported type \<^verbatim>\<open>Group\<close>, which \<open>Add\<close> alone does not build when the phrases differ in
  length.\<close>

definition bucket_group :: "rune list list \<Rightarrow> Group" where
  "bucket_group ents = \<lparr>Name = ''g'', Entities = [runes ''abc003'' \<mapsto> ents], MaxLen = 3\<rparr>"

text \<open>A text of \<open>n\<close> one-letter words, each followed by a space.\<close>

definition words :: "nat \<Rightarrow> rune list" where
  "words n = concat (replicate n (runes ''a ''))"

text \<open>The input and the calls of \<^verbatim>\<open>TestFind\<close> in \<^verbatim>\<open>fastentity_test.go\<close>; the three
  characters outside ASCII are given by their code points, and 92 is the backslash.\<close>

definition test_text :: "rune list" where
  "test_text = [26085, 32, 26412, 35486] @
     runes ''. jack was a golang developer from sydney, for someone. San Francisco, USA... Or so they say. Maybe PHP, or PDX. Jody Shipway''
     @ [92] @ runes ''u0007'' @ [92] @ runes ''n'' @ [92] @ runes ''u0007''"

definition test_calls :: "(string \<times> rune list list) list" where
  "test_calls =
     [(''locations'', [runes ''San Francisco, USA'']),
      (''jobTitles'', [runes ''golang developer'']),
      (''skills'', [runes ''PHP'', [26412, 35486], runes ''PRC'']),
      (''last'', [runes ''shipway''])]"

section \<open>The bucket key\<close>

lemma hash_empty: "hash G [] = Inl IndexOutOfRange"
  by (simp add: hash_def index_def)

lemma hash_nonempty: "rs \<noteq> [] \<Longrightarrow> hash G rs = Inr (hash_spec G rs)"
proof (cases rs)
  case Nil
  assume "rs \<noteq> []"
  with Nil show ?thesis by simp
next
  case (Cons a as)
  show ?thesis
  proof (cases as)
    case Nil
    with Cons show ?thesis by (simp add: hash_def index_def hash_spec_def)
  next
    case (Cons b bs)
    note ab = \<open>rs = a # as\<close> Cons
    show ?thesis
    proof (cases bs)
      case Nil
      with ab show ?thesis by (simp add: hash_def index_def hash_spec_def)
    next
      case (Cons c cs)
      with ab show ?thesis by (simp add: hash_def index_def hash_spec_def)
    qed
  qed
qed

lemma hash_spec_cong:
  assumes "length a = length b" "map (ToLower G) (take 3 a) = map (ToLower G) (take 3 b)"
  shows "hash_spec G a = hash_spec G b"
proof -
  have "take (min 3 (length a)) a = take 3 a" "take (min 3 (length b)) b = take 3 b"
    by (simp_all add: min_def)
  moreover have
    "map (\<lambda>r. string_of_rune (ToLower G r)) (take 3 a) = map string_of_rune (map (ToLower G) (take 3 a))"
    "map (\<lambda>r. string_of_rune (ToLower G r)) (take 3 b) = map string_of_rune (map (ToLower G) (take 3 b))"
    by simp_all
  ultimately show ?thesis using assms unfolding hash_spec_def by (simp del: map_map)
qed

lemma length_decimal_le_3: "n < 1000 \<Longrightarrow> length (decimal n) \<le> 3"
proof -
  assume n: "n < 1000"
  have d1: "length (decimal m) = 1" if "m < 10" for m
    using that by (simp add: decimal.simps [of m])
  have d2: "length (decimal m) \<le> 2" if "m < 100" for m
  proof (cases "m < 10")
    case True
    with d1 show ?thesis by simp
  next
    case False
    from that have "m div 10 < 10" by simp
    with d1 False show ?thesis by (simp add: decimal.simps [of m])
  qed
  show ?thesis
  proof (cases "n < 10")
    case True
    with d1 show ?thesis by simp
  next
    case False
    from n have "n div 10 < 100" by simp
    with d2 False show ?thesis by (simp add: decimal.simps [of n])
  qed
qed

lemma length_fmt_03d: "n < 1000 \<Longrightarrow> length (fmt_03d n) = 3"
  using length_decimal_le_3 [of n] by (simp add: fmt_03d_def)

lemma fmt_03d_3: "fmt_03d (Suc (Suc (Suc 0))) = [48, 48, 51]"
  by (simp add: fmt_03d_def decimal.simps numeral_2_eq_2)

text \<open>
  Claim C4. For every non-empty span, \<open>hash\<close> returns (without panicking) the
  case-folded first \<open>min 3 (length rs)\<close> characters followed by the length in decimal,
  padded with zeros to three digits (\<open>hash_spec\<close>, the key as the specification words
  it; the digits are exactly three for every length below 1000, and are the unpadded
  decimal from there on); so a span of the same length whose first three characters
  case-fold to the same ones gets the same key.
\<close>

theorem C4_hash_key:
  "rs \<noteq> [] \<Longrightarrow>
     hash G rs = Inr (hash_spec G rs) \<and>
     (length rs < 1000 \<longrightarrow> length (fmt_03d (length rs)) = 3) \<and>
     (\<forall>rs'. length rs' = length rs \<and> map (ToLower G) (take 3 rs') = map (ToLower G) (take 3 rs)
        \<longrightarrow> hash G rs' = hash G rs)"
proof (intro conjI allI impI)
  assume ne: "rs \<noteq> []"
  show "hash G rs = Inr (hash_spec G rs)" using ne by (rule hash_nonempty)
  show "length (fmt_03d (length rs)) = 3" if "length rs < 1000"
    using that by (rule length_fmt_03d)
  fix rs'
  assume h: "length rs' = length rs \<and> map (ToLower G) (take 3 rs') = map (ToLower G) (take 3 rs)"
  then have "rs' \<noteq> []" using ne by auto
  moreover have "hash_spec G rs' = hash_spec G rs"
    using h by (intro hash_spec_cong) simp_all
  ultimately show "hash G rs' = hash G rs"
    using ne by (simp add: hash_nonempty)
qed

theorem C4_hash_key_witness:
  "hash gc_ascii (runes ''PHP'') = Inr [112, 104, 112, 48, 48, 51] \<and>
   hash gc_ascii (runes ''phP'') = hash gc_ascii (runes ''PHP'')"
proof -
  have ne: "runes ''PHP'' \<noteq> []" by (simp add: runes_def)
  have k: "hash_spec gc_ascii (runes ''PHP'') = [112, 104, 112, 48, 48, 51]"
    by (simp add: hash_spec_def runes_def gc_ascii_def string_of_rune_def fmt_03d_3)
  have h: "length (runes ''phP'') = length (runes ''PHP'') \<and>
      map (ToLower gc_ascii) (take 3 (runes ''phP'')) = map (ToLower gc_ascii) (take 3 (runes ''PHP''))"
    by (simp add: runes_def gc_ascii_def)
  note t = C4_hash_key [OF ne, of gc_ascii]
  have a: "hash gc_ascii (runes ''PHP'') = Inr (hash_spec gc_ascii (runes ''PHP''))"
    using t by blast
  have b: "hash gc_ascii (runes ''phP'') = hash gc_ascii (runes ''PHP'')"
    using t h by blast
  show ?thesis using a b k by simp
qed

section \<open>Adding an empty phrase\<close>

lemma add_entities_empty: "[] \<in> set es \<Longrightarrow> add_entities G g es = Inl IndexOutOfRange"
proof (induction es arbitrary: g)
  case Nil
  then show ?case by simp
next
  case (Cons e es)
  show ?case
  proof (cases "e = []")
    case True
    then show ?thesis by (simp add: hash_empty)
  next
    case False
    with Cons.prems have "[] \<in> set es" by auto
    with False Cons.IH show ?thesis by (simp add: hash_nonempty)
  qed
qed

text \<open>
  Claim C9. \<open>Add\<close> with an empty phrase among its entities panics, whatever the store
  and the group name: \<open>Add\<close> has no emptiness check and \<open>hash\<close> reads \<^verbatim>\<open>rs[0]\<close>, which is
  out of range for the empty sequence.
\<close>

theorem C9_add_empty_phrase_panics:
  "[] \<in> set entities \<Longrightarrow> Add G s name entities = Inl IndexOutOfRange"
  by (simp add: Add_def add_entities_empty split: option.splits)

theorem C9_add_empty_phrase_panics_witness:
  "Add gc_ascii (New [''skills'']) ''skills'' [runes ''PHP'', []] = Inl IndexOutOfRange"
proof -
  have "[] \<in> set [runes ''PHP'', []]" by simp
  then show ?thesis by (rule C9_add_empty_phrase_panics)
qed

section \<open>The inner loops compute the hit lists\<close>

text \<open>Within the bounds \<open>0 \<le> p1[left] < p2[right] \<le> len(rs)\<close> no loop panics, and each
  appends to the result map the records that its list function names.\<close>

lemma extends_refl: "extends res res (\<lambda>name. [])"
  by (simp add: extends_def)

lemma extends_trans:
  "extends a b f \<Longrightarrow> extends b c g \<Longrightarrow> extends a c (\<lambda>name. f name @ g name)"
  by (simp add: extends_def)

lemma extends_record:
  "extends res (record_match res gname e) (\<lambda>name. if name = gname then [e] else [])"
  by (simp add: extends_def record_match_def lookup_def)

lemma ent_match_eq:
  "0 \<le> l \<Longrightarrow> 0 \<le> i \<Longrightarrow> l + i + int (length ent) \<le> int (length rs) \<Longrightarrow>
   ent_match G rs l i ent =
     Inr (map (ToLower G) ent = map (ToLower G) (take (length ent) (drop (nat (l + i)) rs)))"
proof (induction ent arbitrary: i)
  case Nil
  then show ?case by simp
next
  case (Cons r ent)
  let ?k = "nat (l + i)"
  from Cons.prems have k: "?k < length rs" by simp
  then have ix: "index rs (l + i) = Inr (rs ! ?k)"
    using Cons.prems by (simp add: index_def)
  have nk: "nat (l + (i + 1)) = Suc ?k" using Cons.prems by simp
  have tk: "take (Suc (length ent)) (drop ?k rs) = rs ! ?k # take (length ent) (drop (Suc ?k) rs)"
    using k by (simp add: Cons_nth_drop_Suc [symmetric])
  have "ent_match G rs l (i + 1) ent =
     Inr (map (ToLower G) ent = map (ToLower G) (take (length ent) (drop (nat (l + (i + 1))) rs)))"
    using Cons.prems by (intro Cons.IH) simp_all
  then show ?case using ix nk tk by auto
qed

lemma slice_candidate:
  "0 \<le> fst p1 \<Longrightarrow> fst p1 \<le> snd p2 \<Longrightarrow> snd p2 \<le> int (length rs) \<Longrightarrow>
     slice rs (fst p1) (snd p2) = Inr (candidate rs p1 p2)"
  by (simp add: slice_def candidate_def)

lemma length_candidate:
  "0 \<le> fst p1 \<Longrightarrow> fst p1 \<le> snd p2 \<Longrightarrow> snd p2 \<le> int (length rs) \<Longrightarrow>
     int (length (candidate rs p1 p2)) = snd p2 - fst p1"
  by (simp add: candidate_def)

lemma bucket_scan_hits:
  assumes b: "0 \<le> fst p1" "fst p1 \<le> snd p2" "snd p2 \<le> int (length rs)"
  shows "\<exists>res'. bucket_scan G rs gname p1 p2 ents res = Inr res' \<and>
     extends res res' (\<lambda>name. if name = gname
        then map (\<lambda>ent. \<lparr>Text = candidate rs p1 p2, Offset = fst p1\<rparr>)
               (bucket_hits G (candidate rs p1 p2) ents)
        else [])"
proof (induction ents arbitrary: res)
  case Nil
  show ?case by (simp add: bucket_hits_def extends_def)
next
  case (Cons ent ents)
  let ?c = "candidate rs p1 p2"
  let ?e = "\<lparr>Text = ?c, Offset = fst p1\<rparr>"
  have lc: "int (length ?c) = snd p2 - fst p1" using b by (rule length_candidate)
  show ?case
  proof (cases "int (length ent) = snd p2 - fst p1")
    case False
    then have "length ent \<noteq> length ?c" using lc by auto
    with False show ?thesis by (simp add: bucket_hits_def extends_def)
  next
    case True
    then have le: "length ent = length ?c" using lc by auto
    have "ent_match G rs (fst p1) 0 ent =
        Inr (map (ToLower G) ent = map (ToLower G) (take (length ent) (drop (nat (fst p1 + 0)) rs)))"
      using b True by (intro ent_match_eq) simp_all
    moreover have "take (length ent) (drop (nat (fst p1 + 0)) rs) = ?c"
      using True [symmetric] by (simp add: candidate_def)
    ultimately have m: "ent_match G rs (fst p1) 0 ent = Inr (map (ToLower G) ent = map (ToLower G) ?c)"
      by simp
    show ?thesis
    proof (cases "map (ToLower G) ent = map (ToLower G) ?c")
      case False
      from Cons.IH [of res] obtain res' where
        r: "bucket_scan G rs gname p1 p2 ents res = Inr res'" and
        x: "extends res res' (\<lambda>name. if name = gname then map (\<lambda>ent. ?e) (bucket_hits G ?c ents) else [])"
        by blast
      have bh0: "bucket_hits G ?c (ent # ents) = bucket_hits G ?c ents"
        using False le by (simp add: bucket_hits_def)
      have "bucket_scan G rs gname p1 p2 (ent # ents) res = Inr res'"
        using r True m False by simp
      with x show ?thesis unfolding bh0 by blast
    next
      case hit: True
      from Cons.IH [of "record_match res gname ?e"] obtain res' where
        r: "bucket_scan G rs gname p1 p2 ents (record_match res gname ?e) = Inr res'" and
        x: "extends (record_match res gname ?e) res'
              (\<lambda>name. if name = gname then map (\<lambda>ent. ?e) (bucket_hits G ?c ents) else [])"
        by blast
      have bh: "bucket_hits G ?c (ent # ents) = ent # bucket_hits G ?c ents"
        using hit le by (simp add: bucket_hits_def)
      have "extends res res' (\<lambda>name. (if name = gname then [?e] else []) @
              (if name = gname then map (\<lambda>ent. ?e) (bucket_hits G ?c ents) else []))"
        using extends_record x by (rule extends_trans)
      then have "extends res res'
          (\<lambda>name. if name = gname then map (\<lambda>ent. ?e) (bucket_hits G ?c (ent # ents)) else [])"
        by (simp add: bh extends_def)
      moreover have "bucket_scan G rs gname p1 p2 (ent # ents) res = Inr res'"
        using True m hit r b by (simp add: slice_candidate)
      ultimately show ?thesis by blast
    qed
  qed
qed

lemma check_group_hits:
  assumes b: "0 \<le> fst p1" "fst p1 < snd p2" "snd p2 \<le> int (length rs)"
  shows "\<exists>res'. check_group G rs p1 p2 g res = Inr res' \<and>
     extends res res' (\<lambda>name. if name = Name g then group_hits G rs p1 p2 g else [])"
proof (cases "snd p2 - fst p1 > MaxLen g")
  case True
  then show ?thesis by (simp add: check_group_def group_hits_def extends_def)
next
  case False
  let ?c = "candidate rs p1 p2"
  have b': "fst p1 \<le> snd p2" using b by simp
  have sl: "slice rs (fst p1) (snd p2) = Inr ?c" using b(1) b' b(3) by (rule slice_candidate)
  have "int (length ?c) = snd p2 - fst p1" using b(1) b' b(3) by (rule length_candidate)
  then have "?c \<noteq> []" using b by auto
  then have h: "hash G ?c = Inr (hash_spec G ?c)" by (rule hash_nonempty)
  show ?thesis
  proof (cases "Entities g (hash_spec G ?c)")
    case None
    with False sl h show ?thesis by (simp add: check_group_def group_hits_def extends_def)
  next
    case (Some ents)
    have gh: "group_hits G rs p1 p2 g =
        map (\<lambda>ent. \<lparr>Text = ?c, Offset = fst p1\<rparr>) (bucket_hits G ?c ents)"
      using False Some by (simp add: group_hits_def)
    have "check_group G rs p1 p2 g res = bucket_scan G rs (Name g) p1 p2 ents res"
      using False sl h Some by (simp add: check_group_def)
    with bucket_scan_hits [OF b(1) b' b(3), of G "Name g" ents res]
    show ?thesis unfolding gh by simp
  qed
qed

lemma each_group_hits:
  assumes b: "0 \<le> fst p1" "fst p1 < snd p2" "snd p2 \<le> int (length rs)"
  shows "\<exists>res'. each_group G rs p1 p2 groups res = Inr res' \<and>
     extends res res' (\<lambda>name. cand_hits G rs groups name p1 p2)"
proof (induction groups arbitrary: res)
  case Nil
  show ?case by (simp add: cand_hits_def extends_def)
next
  case (Cons g groups)
  from check_group_hits [OF b, of G g res] obtain r1 where
    c: "check_group G rs p1 p2 g res = Inr r1" and
    x1: "extends res r1 (\<lambda>name. if name = Name g then group_hits G rs p1 p2 g else [])"
    by blast
  from Cons.IH [of r1] obtain r2 where
    e: "each_group G rs p1 p2 groups r1 = Inr r2" and
    x2: "extends r1 r2 (\<lambda>name. cand_hits G rs groups name p1 p2)"
    by blast
  have "extends res r2 (\<lambda>name. (if name = Name g then group_hits G rs p1 p2 g else []) @
          cand_hits G rs groups name p1 p2)"
    using x1 x2 by (rule extends_trans)
  then have "extends res r2 (\<lambda>name. cand_hits G rs (g # groups) name p1 p2)"
    by (simp add: extends_def cand_hits_def)
  with c e show ?case by simp
qed

lemma walk_hits_eq:
  assumes "\<forall>p1\<in>set ps. 0 \<le> fst p1 \<and> fst p1 < snd p2" "snd p2 \<le> int (length rs)"
  shows "\<exists>res'. walk G rs groups p2 ps res = Inr res' \<and>
     extends res res' (\<lambda>name. walk_hits G rs groups name p2 ps)"
  using assms
proof (induction ps arbitrary: res)
  case Nil
  show ?case by (simp add: walk_hits_def extends_def)
next
  case (Cons p1 older)
  show ?case
  proof (cases "snd p2 - fst p1 > MaxEntityLen")
    case True
    then show ?thesis by (simp add: walk_hits_def extends_def)
  next
    case False
    have b: "0 \<le> fst p1" "fst p1 < snd p2" "snd p2 \<le> int (length rs)"
      using Cons.prems by simp_all
    from each_group_hits [OF b, of G groups res] obtain r1 where
      e: "each_group G rs p1 p2 groups res = Inr r1" and
      x1: "extends res r1 (\<lambda>name. cand_hits G rs groups name p1 p2)"
      by blast
    have "\<exists>res'. walk G rs groups p2 older r1 = Inr res' \<and>
        extends r1 res' (\<lambda>name. walk_hits G rs groups name p2 older)"
      using Cons.prems by (intro Cons.IH) simp_all
    then obtain r2 where
      w: "walk G rs groups p2 older r1 = Inr r2" and
      x2: "extends r1 r2 (\<lambda>name. walk_hits G rs groups name p2 older)"
      by blast
    have "extends res r2 (\<lambda>name. cand_hits G rs groups name p1 p2 @ walk_hits G rs groups name p2 older)"
      using x1 x2 by (rule extends_trans)
    then have "extends res r2 (\<lambda>name. walk_hits G rs groups name p2 (p1 # older))"
      using False by (simp add: walk_hits_def extends_def)
    with e w False show ?thesis by simp
  qed
qed

section \<open>The pass keeps its invariants and never panics\<close>

lemma shift_window:
  assumes "ps = older @ w" "length w < 20 \<longrightarrow> c = 20 \<and> w = ps"
  shows "\<exists>older' w' c'. snd (shift G p (w, c)) = (w', c') \<and> ps @ [p] = older' @ w' \<and>
           (length w' < 20 \<longrightarrow> c' = 20 \<and> w' = ps @ [p]) \<and> (length w' \<ge> 20 \<or> older' = [])"
proof (cases "w = []")
  case True
  with assms have "c = 20" "ps = []" by simp_all
  with True show ?thesis by (simp add: shift_def append1_def)
next
  case False
  show ?thesis
  proof (cases "length w = c")
    case True
    with assms False have big: "20 \<le> length w" by auto
    have "length (tl w) = c - 1" "c \<noteq> 0" using False True by auto
    then have "snd (shift G p (w, c)) = (tl w @ [p], growslice G (c - 1) (length (tl w) + 1))"
      using False True by (simp add: shift_def append1_def tail1_def)
    moreover have "ps @ [p] = (older @ [hd w]) @ (tl w @ [p])"
      using assms(1) False by simp
    moreover have "20 \<le> length (tl w @ [p])" using big False by simp
    ultimately show ?thesis by (metis not_less)
  next
    case ne: False
    show ?thesis
    proof (cases "length w < 20")
      case True
      with assms have "c = 20" "w = ps" by simp_all
      with True False show ?thesis by (simp add: shift_def append1_def)
    next
      case big: False
      have "snd (shift G p (w, c)) =
          (w @ [p], if length w < c then c else growslice G c (length w + 1))"
        using False ne by (simp add: shift_def append1_def)
      moreover have "ps @ [p] = older @ (w @ [p])" using assms(1) by simp
      moreover have "20 \<le> length (w @ [p])" using big by simp
      ultimately show ?thesis by (metis not_less)
    qed
  qed
qed

lemma spans_ok_snoc:
  "spans_ok ps \<Longrightarrow> 0 \<le> fst p \<Longrightarrow> fst p < snd p \<Longrightarrow> \<forall>q\<in>set ps. snd q < fst p \<Longrightarrow>
     spans_ok (ps @ [p])"
  by (auto simp: spans_ok_def sorted_wrt_append)

lemma spans_ok_suffix: "spans_ok (xs @ ys) \<Longrightarrow> spans_ok ys"
  by (auto simp: spans_ok_def sorted_wrt_append)

lemma spans_ok_width:
  "spans_ok w \<Longrightarrow> w \<noteq> [] \<Longrightarrow> 2 * int (length w) - 1 \<le> snd (last w) - fst (hd w)"
proof (induction w)
  case Nil
  then show ?case by simp
next
  case (Cons p w)
  show ?case
  proof (cases w)
    case Nil
    with Cons.prems show ?thesis by (simp add: spans_ok_def)
  next
    case (Cons q w')
    from Cons.prems(1) have ok: "spans_ok w" by (auto simp: spans_ok_def)
    from Cons.prems(1) Cons have "fst p < snd p" "snd p < fst q" by (auto simp: spans_ok_def)
    moreover have "2 * int (length w) - 1 \<le> snd (last w) - fst (hd w)"
      using ok Cons by (intro Cons.IH) simp_all
    ultimately show ?thesis using Cons by simp
  qed
qed

lemma spans_ok_fst_last:
  "spans_ok w \<Longrightarrow> q \<in> set w \<Longrightarrow> fst q < snd (last w)"
proof (induction w)
  case Nil
  then show ?case by simp
next
  case (Cons p w)
  from Cons.prems(1) have ok: "spans_ok w" by (auto simp: spans_ok_def)
  show ?case
  proof (cases "w = []")
    case True
    with Cons.prems show ?thesis by (auto simp: spans_ok_def)
  next
    case False
    then have lw: "last w \<in> set w" by simp
    show ?thesis
    proof (cases "q = p")
      case True
      from Cons.prems(1) lw have "snd p < fst (last w)" "fst (last w) < snd (last w)" "fst p < snd p"
        by (auto simp: spans_ok_def)
      with True False show ?thesis by simp
    next
      case qp: False
      with Cons.prems have "q \<in> set w" by simp
      with ok Cons.IH False show ?thesis by simp
    qed
  qed
qed

text \<open>The walk over the window visits what a walk over all spans pushed so far would.\<close>

lemma walk_hits_window:
  assumes ok: "spans_ok (older @ w)" and w: "w \<noteq> []" and big: "20 \<le> length w \<or> older = []"
  shows "walk_hits G rs groups name (last w) (rev (older @ w)) =
         walk_hits G rs groups name (last w) (rev w)"
proof (cases "older = []")
  case True
  then show ?thesis by simp
next
  case False
  with big have l: "20 \<le> length w" by simp
  have "spans_ok w" using ok by (rule spans_ok_suffix)
  then have "2 * int (length w) - 1 \<le> snd (last w) - fst (hd w)" using w by (rule spans_ok_width)
  with l have "snd (last w) - fst (hd w) > MaxEntityLen" by (simp add: MaxEntityLen_def)
  moreover have "hd w \<in> set (rev w)" using w by simp
  ultimately have "takeWhile (\<lambda>p1. \<not> snd (last w) - fst p1 > MaxEntityLen) (rev w @ rev older) =
      takeWhile (\<lambda>p1. \<not> snd (last w) - fst p1 > MaxEntityLen) (rev w)"
    by (intro takeWhile_append1 [where x = "hd w"]) simp_all
  then show ?thesis by (simp add: walk_hits_def)
qed

lemma all_hits_snoc:
  "all_hits G rs groups name (ps @ [p]) =
     all_hits G rs groups name ps @
     (if ps = [] then [] else walk_hits G rs groups name p (rev (ps @ [p])))"
proof (cases "ps = []")
  case True
  then show ?thesis by (simp add: all_hits_def)
next
  case False
  then have u: "[1..<length (ps @ [p])] = [1..<length ps] @ [length ps]"
    by (cases ps) simp_all
  have m: "map (\<lambda>j. walk_hits G rs groups name ((ps @ [p]) ! j) (rev (take (Suc j) (ps @ [p]))))
        [1..<length ps] =
      map (\<lambda>j. walk_hits G rs groups name (ps ! j) (rev (take (Suc j) ps))) [1..<length ps]"
    by (rule map_cong) (simp_all add: nth_append)
  have "all_hits G rs groups name (ps @ [p]) =
      all_hits G rs groups name ps @
      walk_hits G rs groups name ((ps @ [p]) ! length ps) (rev (take (Suc (length ps)) (ps @ [p])))"
    by (simp only: all_hits_def u map_append concat_append m list.map concat.simps append_Nil2)
  then show ?thesis using False by simp
qed

lemma invI:
  assumes "spans_ok (pushed st)" "\<forall>p\<in>set (pushed st). snd p < int k"
    "\<not> prevSpace st \<Longrightarrow> 0 \<le> start st \<and> start st < int k \<and> (\<forall>p\<in>set (pushed st). snd p < start st)"
    "pushed st = older @ fst (pairs st)"
    "length (fst (pairs st)) < 20 \<longrightarrow> snd (pairs st) = 20 \<and> fst (pairs st) = pushed st"
  shows "inv st k"
  using assms unfolding inv_def by blast

lemma invD:
  assumes "inv st k"
  shows "spans_ok (pushed st)" "\<forall>p\<in>set (pushed st). snd p < int k"
    "\<not> prevSpace st \<Longrightarrow> 0 \<le> start st \<and> start st < int k \<and> (\<forall>p\<in>set (pushed st). snd p < start st)"
    "\<exists>older. pushed st = older @ fst (pairs st)"
    "length (fst (pairs st)) < 20 \<longrightarrow> snd (pairs st) = 20 \<and> fst (pairs st) = pushed st"
  using assms unfolding inv_def by blast+

lemma step_inv:
  assumes i: "inv st k" and r: "res_inv G rs groups st" and k: "k < length rs"
  shows "\<exists>st'. step G rs groups st k c = Inr st' \<and> inv st' (Suc k) \<and> res_inv G rs groups st'"
proof -
  let ?space = "IsPunct G c \<or> IsSpace G c"
  note d = invD [OF i]
  from d(4) obtain older where o: "pushed st = older @ fst (pairs st)" by blast
  consider (a) "prevSpace st \<and> \<not> ?space" | (b) "?space \<and> \<not> prevSpace st"
    | (c) "\<not> (prevSpace st \<and> \<not> ?space) \<and> \<not> (?space \<and> \<not> prevSpace st)"
    by blast
  then show ?thesis
  proof cases
    case a
    then have s: "step G rs groups st k c = Inr (st\<lparr>start := int k, prevSpace := False\<rparr>)"
      by (simp add: step_def)
    have "inv (st\<lparr>start := int k, prevSpace := False\<rparr>) (Suc k)"
    proof (rule invI [where older = older])
      show "\<forall>p\<in>set (pushed (st\<lparr>start := int k, prevSpace := False\<rparr>)). snd p < int (Suc k)"
        using d(2) by auto
    qed (use d o in auto)
    moreover have "res_inv G rs groups (st\<lparr>start := int k, prevSpace := False\<rparr>)"
      using r by (simp add: res_inv_def)
    ultimately show ?thesis using s by simp
  next
    case c
    then have s: "step G rs groups st k c = Inr (st\<lparr>prevSpace := ?space\<rparr>)"
      by (auto simp: step_def)
    have "inv (st\<lparr>prevSpace := ?space\<rparr>) (Suc k)"
    proof (rule invI [where older = older])
      show "\<forall>p\<in>set (pushed (st\<lparr>prevSpace := ?space\<rparr>)). snd p < int (Suc k)"
        using d(2) by auto
      show "0 \<le> start (st\<lparr>prevSpace := ?space\<rparr>) \<and> start (st\<lparr>prevSpace := ?space\<rparr>) < int (Suc k) \<and>
          (\<forall>p\<in>set (pushed (st\<lparr>prevSpace := ?space\<rparr>)). snd p < start (st\<lparr>prevSpace := ?space\<rparr>))"
        if "\<not> prevSpace (st\<lparr>prevSpace := ?space\<rparr>)"
        using that c d(3) by auto
    qed (use d o in auto)
    moreover have "res_inv G rs groups (st\<lparr>prevSpace := ?space\<rparr>)"
      using r by (simp add: res_inv_def)
    ultimately show ?thesis using s by simp
  next
    case b
    let ?p = "(start st, int k)"
    let ?ps = "pushed st"
    from d(3) b have st: "0 \<le> start st" "start st < int k" "\<forall>q\<in>set ?ps. snd q < start st"
      by simp_all
    note ok = d(1) and lt = d(2) and small = d(5)
    from shift_window [OF o small, of G ?p] obtain older' w' c' where
      sh: "snd (shift G ?p (pairs st)) = (w', c')" and
      o': "?ps @ [?p] = older' @ w'" and
      small': "length w' < 20 \<longrightarrow> c' = 20 \<and> w' = ?ps @ [?p]" and
      big': "20 \<le> length w' \<or> older' = []"
      by auto
    have ok': "spans_ok (?ps @ [?p])"
      using ok st by (intro spans_ok_snoc) simp_all
    have ne: "w' \<noteq> []" using big' o' by auto
    have lw: "last w' = ?p" using o' ne by (metis last_appendR last_snoc)
    have len: "(1 < length w') = (?ps \<noteq> [])"
    proof (cases "older' = []")
      case True
      with o' have "w' = ?ps @ [?p]" by simp
      then show ?thesis by (cases ?ps) simp_all
    next
      case False
      with big' have "20 \<le> length w'" by simp
      moreover have "length (?ps @ [?p]) = length older' + length w'" using o' by (metis length_append)
      ultimately show ?thesis using False by (cases ?ps) auto
    qed
    have bounds: "\<forall>p1\<in>set (rev w'). 0 \<le> fst p1 \<and> fst p1 < snd (last w')"
    proof
      fix p1 assume "p1 \<in> set (rev w')"
      then have m: "p1 \<in> set (?ps @ [?p])" using o' by (metis Un_iff set_append set_rev)
      then have "0 \<le> fst p1" using ok' by (auto simp: spans_ok_def)
      moreover have "fst p1 < snd (last (?ps @ [?p]))" using ok' m by (rule spans_ok_fst_last)
      ultimately show "0 \<le> fst p1 \<and> fst p1 < snd (last w')" using lw by simp
    qed
    have up: "snd (last w') \<le> int (length rs)" using lw k by simp
    from walk_hits_eq [OF bounds up, of G groups "results st"] obtain res' where
      wk: "walk G rs groups (last w') (rev w') (results st) = Inr res'" and
      ex: "extends (results st) res' (\<lambda>name. walk_hits G rs groups name (last w') (rev w'))"
      by blast
    have wh: "walk_hits G rs groups name (last w') (rev w') =
        walk_hits G rs groups name ?p (rev (?ps @ [?p]))" for name
      using walk_hits_window [of older' w' G rs groups name] ok' o' ne big' lw by simp
    let ?res = "if ?ps \<noteq> [] then res' else results st"
    let ?st' = "st\<lparr>pairs := (w', c'), prevSpace := True, results := ?res, pushed := ?ps @ [?p]\<rparr>"
    have s: "step G rs groups st k c = Inr ?st'"
      using b sh wk len by (simp add: step_def Let_def)
    have "inv ?st' (Suc k)"
    proof (rule invI [where older = older'])
      show "\<forall>p\<in>set (pushed ?st'). snd p < int (Suc k)" using lt by auto
    qed (use ok' o' small' in auto)
    moreover have "res_inv G rs groups ?st'"
      unfolding res_inv_def
    proof
      fix name
      show "lookup (results ?st') name = all_hits G rs groups name (pushed ?st')"
        using r ex wh [of name] by (simp add: all_hits_snoc res_inv_def extends_def)
    qed
    ultimately show ?thesis using s by blast
  qed
qed

lemma loop_inv:
  assumes "inv st k" "res_inv G rs groups st" "k + length rest \<le> length rs"
  shows "\<exists>st'. loop G rs groups k rest st = Inr st' \<and> inv st' (k + length rest) \<and>
           res_inv G rs groups st'"
  using assms
proof (induction rest arbitrary: k st)
  case Nil
  then show ?case by simp
next
  case (Cons c rest)
  from Cons.prems have "k < length rs" by simp
  from step_inv [OF Cons.prems(1,2) this, of c] obtain st1 where
    s: "step G rs groups st k c = Inr st1" and i1: "inv st1 (Suc k)" and r1: "res_inv G rs groups st1"
    by blast
  have "\<exists>st'. loop G rs groups (Suc k) rest st1 = Inr st' \<and> inv st' (Suc k + length rest) \<and>
           res_inv G rs groups st'"
    using i1 r1 Cons.prems(3) by (intro Cons.IH) simp_all
  with s show ?case by simp
qed

lemma inv_init: "inv init 0"
  by (simp add: inv_def init_def spans_ok_def)

lemma res_inv_init: "res_inv G rs groups init"
  by (simp add: res_inv_def init_def all_hits_def lookup_def)

lemma find_state_total:
  "\<exists>st. find_state G rs groups = Inr st \<and> inv st (length rs) \<and> res_inv G rs groups st"
  using loop_inv [OF inv_init res_inv_init, of rs rs G groups] by (simp add: find_state_def)

section \<open>Find and FindAll return, and what they return\<close>

lemma spans_ok_take: "spans_ok ps \<Longrightarrow> spans_ok (take n ps)"
  using spans_ok_def sorted_wrt_take in_set_takeD by (metis (no_types, lifting))

lemma hits_sound:
  assumes m: "m \<in> set (all_hits G rs groups name ps)" and ok: "spans_ok ps"
  shows "\<exists>p1 p2 g ents ent. p1 \<in> set ps \<and> p2 \<in> set ps \<and> fst p1 < snd p2 \<and>
      m = \<lparr>Text = candidate rs p1 p2, Offset = fst p1\<rparr> \<and>
      snd p2 - fst p1 \<le> MaxEntityLen \<and> g \<in> set groups \<and> Name g = name \<and>
      snd p2 - fst p1 \<le> MaxLen g \<and>
      Entities g (hash_spec G (candidate rs p1 p2)) = Some ents \<and> ent \<in> set ents \<and>
      length ent = length (candidate rs p1 p2) \<and>
      map (ToLower G) ent = map (ToLower G) (candidate rs p1 p2)"
proof -
  from m obtain j where j: "1 \<le> j" "j < length ps"
    and mj: "m \<in> set (walk_hits G rs groups name (ps ! j) (rev (take (Suc j) ps)))"
    by (auto simp: all_hits_def)
  let ?p2 = "ps ! j"
  from mj obtain p1 where
    p1: "p1 \<in> set (takeWhile (\<lambda>p1. \<not> snd ?p2 - fst p1 > MaxEntityLen) (rev (take (Suc j) ps)))"
    and mc: "m \<in> set (cand_hits G rs groups name p1 ?p2)"
    by (auto simp: walk_hits_def)
  from p1 have p1t: "p1 \<in> set (take (Suc j) ps)" and short: "snd ?p2 - fst p1 \<le> MaxEntityLen"
    by (auto dest: set_takeWhileD)
  have lt: "last (take (Suc j) ps) = ?p2" using j by (simp add: take_Suc_conv_app_nth)
  have "fst p1 < snd (last (take (Suc j) ps))"
    using spans_ok_take [OF ok] p1t by (rule spans_ok_fst_last)
  then have lt1: "fst p1 < snd ?p2" using lt by simp
  from mc obtain g where g: "g \<in> set groups" "Name g = name" and mg: "m \<in> set (group_hits G rs p1 ?p2 g)"
    by (auto simp: cand_hits_def)
  from mg have ml: "snd ?p2 - fst p1 \<le> MaxLen g"
    by (auto simp: group_hits_def split: if_splits)
  obtain ents where e: "Entities g (hash_spec G (candidate rs p1 ?p2)) = Some ents"
    using mg ml by (cases "Entities g (hash_spec G (candidate rs p1 ?p2))") (auto simp: group_hits_def)
  have mb: "m \<in> set (map (\<lambda>ent. \<lparr>Text = candidate rs p1 ?p2, Offset = fst p1\<rparr>)
                (bucket_hits G (candidate rs p1 ?p2) ents))"
    using mg ml e by (simp add: group_hits_def)
  from mb obtain ent where "ent \<in> set (bucket_hits G (candidate rs p1 ?p2) ents)"
    and meq: "m = \<lparr>Text = candidate rs p1 ?p2, Offset = fst p1\<rparr>"
    by auto
  then have "ent \<in> set ents" "length ent = length (candidate rs p1 ?p2)"
    "map (ToLower G) ent = map (ToLower G) (candidate rs p1 ?p2)"
    by (auto simp: bucket_hits_def dest: set_takeWhileD)
  moreover have "p1 \<in> set ps" using p1t by (rule in_set_takeD)
  moreover have "?p2 \<in> set ps" using j by simp
  ultimately show ?thesis using lt1 meq short g ml e by blast
qed

lemma find_eq:
  "\<exists>st. find_state G rs groups = Inr st \<and> find G rs groups = Inr (results st) \<and>
     inv st (length rs) \<and> res_inv G rs groups st"
  using find_state_total [of G rs groups] by (auto simp: find_def)

lemma Find_eq:
  "\<exists>st. find_state G rs [g] = Inr st \<and> inv st (length rs) \<and>
     Find G g rs = Inr (all_hits G rs [g] (Name g) (pushed st))"
  using find_eq [of G rs "[g]"] by (auto simp: Find_def res_inv_def)

lemma find_groups_total:
  "\<exists>res. find_groups G s rs result = Inr res \<and> dom res = dom result \<union> fst ` set s \<and>
     (\<forall>name. name \<notin> fst ` set s \<longrightarrow> res name = result name)"
proof (induction s arbitrary: result)
  case Nil
  show ?case by simp
next
  case (Cons a s)
  obtain name g where a: "a = (name, g)" by (cases a)
  from Find_eq [of G rs g] obtain found where f: "Find G g rs = Inr found" by blast
  from Cons.IH [of "result(name \<mapsto> found)"] obtain res where
    r: "find_groups G s rs (result(name \<mapsto> found)) = Inr res" and
    d: "dom res = dom (result(name \<mapsto> found)) \<union> fst ` set s" and
    o: "\<forall>n. n \<notin> fst ` set s \<longrightarrow> res n = (result(name \<mapsto> found)) n"
    by blast
  have "find_groups G (a # s) rs result = Inr res" using a f r by simp
  moreover have "dom res = dom result \<union> fst ` set (a # s)" using d a by auto
  moreover have "\<forall>n. n \<notin> fst ` set (a # s) \<longrightarrow> res n = result n" using o a by auto
  ultimately show ?case by blast
qed

lemma find_groups_lookup:
  assumes "distinct (map fst s)" "map_of s name = Some g"
  shows "\<exists>res found. find_groups G s rs result = Inr res \<and> Find G g rs = Inr found \<and>
           res name = Some found"
  using assms
proof (induction s arbitrary: result)
  case Nil
  then show ?case by simp
next
  case (Cons a s)
  obtain n h where a: "a = (n, h)" by (cases a)
  from Find_eq [of G rs h] obtain fh where fh: "Find G h rs = Inr fh" by blast
  show ?case
  proof (cases "n = name")
    case True
    with Cons.prems a have gh: "h = g" and notin: "name \<notin> fst ` set s" by auto
    from find_groups_total [of G s rs "result(n \<mapsto> fh)"] obtain res where
      r: "find_groups G s rs (result(n \<mapsto> fh)) = Inr res" and
      o: "\<forall>m. m \<notin> fst ` set s \<longrightarrow> res m = (result(n \<mapsto> fh)) m"
      by blast
    from o notin True have "res name = Some fh" by simp
    with r a fh gh show ?thesis by simp
  next
    case False
    with Cons.prems a have "distinct (map fst s)" "map_of s name = Some g" by auto
    from Cons.IH [OF this, of "result(n \<mapsto> fh)"] obtain res found where
      "find_groups G s rs (result(n \<mapsto> fh)) = Inr res" "Find G g rs = Inr found"
      "res name = Some found"
      by blast
    moreover have "find_groups G (a # s) rs result = find_groups G s rs (result(n \<mapsto> fh))"
      using a fh by simp
    ultimately show ?thesis by simp
  qed
qed

lemma FindAll_dom:
  "\<exists>res. FindAll G s rs = Inr res \<and> dom res = dom (map_of s) \<and>
     (\<forall>name. name \<notin> dom (map_of s) \<longrightarrow> lookup res name = [])"
proof -
  from find_groups_total [of G s rs Map.empty] obtain res where
    r: "find_groups G s rs Map.empty = Inr res" and d: "dom res = fst ` set s"
    by auto
  have "lookup res name = []" if "name \<notin> dom (map_of s)" for name
  proof -
    from that d have "name \<notin> dom res" by (simp add: dom_map_of_conv_image_fst)
    then show ?thesis by (auto simp: lookup_def split: option.splits)
  qed
  with r d show ?thesis by (simp add: FindAll_def dom_map_of_conv_image_fst)
qed

text \<open>
  Claim C8. For every store and input, \<open>FindAll\<close> returns a result (it does not panic),
  the result has an entry exactly for the registered group names, and reading it at a
  name that is not registered gives the empty list.
\<close>

theorem C8_unknown_group_empty:
  "\<exists>res. FindAll G s rs = Inr res \<and> dom res = dom (map_of s) \<and>
     (\<forall>name. name \<notin> dom (map_of s) \<longrightarrow> lookup res name = [])"
  by (rule FindAll_dom)

theorem C8_unknown_group_empty_witness:
  "\<exists>res. FindAll gc_ascii (New [''skills'']) (runes ''a b '') = Inr res \<and>
     dom res = {''skills''} \<and> lookup res ''locations'' = []"
proof -
  have d: "dom (map_of (New [''skills''])) = {''skills''}" by (simp add: New_def)
  from C8_unknown_group_empty [of gc_ascii "New [''skills'']" "runes ''a b ''"] obtain res where
    r: "FindAll gc_ascii (New [''skills'']) (runes ''a b '') = Inr res"
      "dom res = dom (map_of (New [''skills'']))"
      "\<forall>name. name \<notin> dom (map_of (New [''skills''])) \<longrightarrow> lookup res name = []"
    by blast
  from r(3) d have "lookup res ''locations'' = []" by simp
  with r(1,2) d show ?thesis by auto
qed

section \<open>What a store holds after New and Add\<close>

lemma max_len_snoc: "max_len (ps @ [e]) = max (max_len ps) (int (length e))"
proof -
  let ?A = "set (0 # map (\<lambda>p. int (length p)) ps)"
  have "set (0 # map (\<lambda>p. int (length p)) (ps @ [e])) = insert (int (length e)) ?A"
    by auto
  moreover have "Max (insert (int (length e)) ?A) = max (int (length e)) (Max ?A)"
    by (rule Max_insert) simp_all
  ultimately show ?thesis unfolding max_len_def by (simp only: max.commute)
qed

lemma group_ok_new: "group_ok G (new_group name) name []"
  by (simp add: group_ok_def new_group_def max_len_def lookup_def)

lemma group_ok_add:
  assumes ok: "group_ok G g name ps" and ne: "e \<noteq> []"
  shows "group_ok G
     (g\<lparr>Entities := (Entities g)(hash_spec G e \<mapsto> lookup (Entities g) (hash_spec G e) @ [e]),
        MaxLen := (if int (length e) > MaxLen g then int (length e) else MaxLen g)\<rparr>)
     name (ps @ [e])"
proof -
  from ok have n: "Name g = name" and ml: "MaxLen g = max_len ps" and nn: "[] \<notin> set ps"
    and b: "\<And>k. lookup (Entities g) k = filter (\<lambda>p. hash_spec G p = k) ps"
    by (simp_all add: group_ok_def)
  have "(if int (length e) > MaxLen g then int (length e) else MaxLen g) = max_len (ps @ [e])"
    using ml by (simp add: max_len_snoc max_def)
  moreover have "lookup ((Entities g)(hash_spec G e \<mapsto> lookup (Entities g) (hash_spec G e) @ [e])) k =
      filter (\<lambda>p. hash_spec G p = k) (ps @ [e])" for k
  proof (cases "k = hash_spec G e")
    case True
    then show ?thesis using b [of k] by (simp add: lookup_def)
  next
    case False
    then have "lookup ((Entities g)(hash_spec G e \<mapsto> lookup (Entities g) (hash_spec G e) @ [e])) k =
        lookup (Entities g) k"
      by (simp add: lookup_def)
    with False b [of k] show ?thesis by auto
  qed
  ultimately show ?thesis using n nn ne unfolding group_ok_def by simp
qed

lemma add_entities_ok:
  assumes "group_ok G g name ps" "add_entities G g es = Inr g'"
  shows "group_ok G g' name (ps @ es)"
  using assms
proof (induction es arbitrary: g ps)
  case Nil
  then show ?case by simp
next
  case (Cons e es)
  have ne: "e \<noteq> []"
  proof
    assume "e = []"
    with Cons.prems(2) show False by (simp add: hash_empty)
  qed
  then have h: "hash G e = Inr (hash_spec G e)" by (rule hash_nonempty)
  let ?g1 = "g\<lparr>Entities := (Entities g)(hash_spec G e \<mapsto> lookup (Entities g) (hash_spec G e) @ [e]),
        MaxLen := (if int (length e) > MaxLen g then int (length e) else MaxLen g)\<rparr>"
  have g1: "group_ok G ?g1 name (ps @ [e])" using Cons.prems(1) ne by (rule group_ok_add)
  have "add_entities G ?g1 es = Inr g'" using Cons.prems(2) h by simp
  with g1 have "group_ok G g' name ((ps @ [e]) @ es)" by (rule Cons.IH)
  then show ?case by simp
qed

lemma phrases_of_snoc:
  "phrases_of n (calls @ [(name, es)]) = phrases_of n calls @ (if n = name then es else [])"
  by (simp add: phrases_of_def)

lemma Add_ok:
  assumes ok: "store_ok G s calls" and a: "Add G s name es = Inr s'"
  shows "store_ok G s' (calls @ [(name, es)])"
proof -
  from ok have d: "distinct (map fst s)"
    and un: "\<And>n. n \<notin> fst ` set s \<Longrightarrow> phrases_of n calls = []"
    and gr: "\<And>n g. map_of s n = Some g \<Longrightarrow> group_ok G g n (phrases_of n calls)"
    by (auto simp: store_ok_def)
  obtain g where g: "g = (case map_of s name of Some g \<Rightarrow> g | None \<Rightarrow> new_group name)" by simp
  have gok: "group_ok G g name (phrases_of name calls)"
  proof (cases "map_of s name")
    case None
    then have "name \<notin> fst ` set s" by (simp add: map_of_eq_None_iff)
    then have "phrases_of name calls = []" by (rule un)
    with None g show ?thesis by (simp add: group_ok_new)
  next
    case (Some h)
    with g gr [of name h] show ?thesis by simp
  qed
  from a g obtain g' where ae: "add_entities G g es = Inr g'"
    and s': "map_of s' = (map_of s)(name \<mapsto> g')" "fst ` set s' = insert name (fst ` set s)"
      "distinct (map fst s')"
    using d by (auto simp: Add_def update_conv' dom_update distinct_update
        split: option.splits sum.splits)
  have g'ok: "group_ok G g' name (phrases_of name calls @ es)" using gok ae by (rule add_entities_ok)
  show ?thesis unfolding store_ok_def
  proof (intro conjI allI impI)
    show "distinct (map fst s')" by (rule s'(3))
    fix n
    show "phrases_of n (calls @ [(name, es)]) = []" if "n \<notin> fst ` set s'"
      using that s'(2) un [of n] by (simp add: phrases_of_snoc)
    fix h
    show "group_ok G h n (phrases_of n (calls @ [(name, es)]))" if "map_of s' n = Some h"
    proof (cases "n = name")
      case True
      with that s'(1) have "h = g'" by simp
      with g'ok True show ?thesis by (simp add: phrases_of_snoc)
    next
      case False
      with that s'(1) have "map_of s n = Some h" by simp
      then have "group_ok G h n (phrases_of n calls)" by (rule gr)
      with False show ?thesis by (simp add: phrases_of_snoc)
    qed
  qed
qed

lemma add_all_ok:
  assumes "store_ok G s calls0" "add_all G s calls = Inr s'"
  shows "store_ok G s' (calls0 @ calls)"
  using assms
proof (induction calls arbitrary: s calls0)
  case Nil
  then show ?case by simp
next
  case (Cons c calls)
  obtain name es where c: "c = (name, es)" by (cases c)
  from Cons.prems(2) c obtain s1 where a: "Add G s name es = Inr s1" and r: "add_all G s1 calls = Inr s'"
    by (auto split: sum.splits)
  have "store_ok G s1 (calls0 @ [(name, es)])" using Cons.prems(1) a by (rule Add_ok)
  from Cons.IH [OF this r] c show ?case by simp
qed

lemma New_ok_aux:
  "store_ok G s [] \<Longrightarrow> store_ok G (foldl (\<lambda>s name. AList.update name (new_group name) s) s names) []"
proof (induction names arbitrary: s)
  case Nil
  then show ?case by simp
next
  case (Cons n names)
  have "store_ok G (AList.update n (new_group n) s) []"
    using Cons.prems
    by (auto simp: store_ok_def update_conv' distinct_update phrases_of_def group_ok_new
        split: if_splits)
  then show ?case using Cons.IH by simp
qed

lemma New_ok: "store_ok G (New names) []"
  unfolding New_def by (rule New_ok_aux) (simp add: store_ok_def phrases_of_def)

lemma built_ok: "add_all G (New names) calls = Inr s \<Longrightarrow> store_ok G s calls"
  using add_all_ok [OF New_ok, of G names calls s] by simp

lemma FindAll_lookup:
  assumes "distinct (map fst s)" "FindAll G s rs = Inr res" "m \<in> set (lookup res name)"
  shows "\<exists>g st. map_of s name = Some g \<and> find_state G rs [g] = Inr st \<and> inv st (length rs) \<and>
      lookup res name = all_hits G rs [g] (Name g) (pushed st)"
proof -
  from assms(3) obtain found where f: "res name = Some found"
    by (cases "res name") (auto simp: lookup_def)
  from FindAll_dom [of G s rs] assms(2) have "dom res = dom (map_of s)" by simp
  with f obtain g where g: "map_of s name = Some g" by blast
  from find_groups_lookup [OF assms(1) g, of G rs Map.empty] assms(2) f
  have fg: "Find G g rs = Inr found" by (auto simp: FindAll_def)
  from Find_eq [of G rs g] obtain st where
    "find_state G rs [g] = Inr st" "inv st (length rs)"
    "Find G g rs = Inr (all_hits G rs [g] (Name g) (pushed st))"
    by blast
  with fg f g show ?thesis by (auto simp: lookup_def)
qed

text \<open>
  Claim C7. In a store built by \<open>New\<close> and any sequence of \<open>Add\<close> calls, the group's
  \<open>MaxLen\<close> is the maximum length over the phrases added to it, and every match that
  \<open>FindAll\<close> reports for the group has at least one code point and at most
  \<open>min MaxEntityLen MaxLen\<close>.
\<close>

theorem C7_match_length_bounds:
  assumes "add_all G (New names) calls = Inr s" "FindAll G s rs = Inr res"
    "m \<in> set (lookup res name)"
  shows "\<exists>g. map_of s name = Some g \<and> MaxLen g = max_len (phrases_of name calls) \<and>
      1 \<le> int (length (Text m)) \<and> int (length (Text m)) \<le> min MaxEntityLen (MaxLen g)"
proof -
  have ok: "store_ok G s calls" using assms(1) by (rule built_ok)
  then have d: "distinct (map fst s)" by (simp add: store_ok_def)
  from FindAll_lookup [OF d assms(2,3)] obtain g st where
    g: "map_of s name = Some g" and i: "inv st (length rs)" and
    l: "lookup res name = all_hits G rs [g] (Name g) (pushed st)"
    by blast
  note dd = invD [OF i]
  from assms(3) l have "m \<in> set (all_hits G rs [g] (Name g) (pushed st))" by simp
  from hits_sound [OF this dd(1)] obtain p1 p2 where
    p: "p1 \<in> set (pushed st)" "p2 \<in> set (pushed st)" "fst p1 < snd p2" and
    m: "m = \<lparr>Text = candidate rs p1 p2, Offset = fst p1\<rparr>" and
    b: "snd p2 - fst p1 \<le> MaxEntityLen" "snd p2 - fst p1 \<le> MaxLen g"
    by auto
  have "0 \<le> fst p1" using dd(1) p(1) by (auto simp: spans_ok_def)
  moreover have "snd p2 \<le> int (length rs)" using dd(2) p(2) by auto
  ultimately have "int (length (candidate rs p1 p2)) = snd p2 - fst p1"
    using p(3) by (intro length_candidate) simp_all
  with m b p(3) have "1 \<le> int (length (Text m)) \<and> int (length (Text m)) \<le> min MaxEntityLen (MaxLen g)"
    by simp
  moreover have "MaxLen g = max_len (phrases_of name calls)"
    using ok g by (auto simp: store_ok_def group_ok_def)
  ultimately show ?thesis using g by blast
qed

lemma php_search:
  "(case add_all gc_ascii (New [''locations'']) [(''skills'', [runes ''PHP''])] of
      Inl e \<Rightarrow> False
    | Inr s \<Rightarrow>
        (case FindAll gc_ascii s (runes ''x php, '') of
           Inl e \<Rightarrow> False
         | Inr res \<Rightarrow> lookup res ''skills'' = [\<lparr>Text = runes ''php'', Offset = 2\<rparr>]))"
  by code_simp

theorem C7_match_length_bounds_witness:
  "\<exists>s res g. add_all gc_ascii (New [''locations'']) [(''skills'', [runes ''PHP''])] = Inr s \<and>
     FindAll gc_ascii s (runes ''x php, '') = Inr res \<and>
     lookup res ''skills'' = [\<lparr>Text = runes ''php'', Offset = 2\<rparr>] \<and>
     map_of s ''skills'' = Some g \<and>
     MaxLen g = max_len (phrases_of ''skills'' [(''skills'', [runes ''PHP''])]) \<and>
     1 \<le> int (length (runes ''php'')) \<and> int (length (runes ''php'')) \<le> min MaxEntityLen (MaxLen g)"
proof -
  from php_search obtain s res where
    s: "add_all gc_ascii (New [''locations'']) [(''skills'', [runes ''PHP''])] = Inr s" and
    f: "FindAll gc_ascii s (runes ''x php, '') = Inr res" and
    l: "lookup res ''skills'' = [\<lparr>Text = runes ''php'', Offset = 2\<rparr>]"
    by (auto split: sum.splits)
  have m: "\<lparr>Text = runes ''php'', Offset = 2\<rparr> \<in> set (lookup res ''skills'')" using l by simp
  from C7_match_length_bounds [OF s f m] s f l show ?thesis by auto
qed

section \<open>The early exit of the walk\<close>

lemma walk_exhaustive_skip:
  "\<forall>p\<in>set ps. snd p2 - fst p > MaxEntityLen \<Longrightarrow> walk_exhaustive G rs groups p2 ps res = Inr res"
  by (induction ps) simp_all

lemma walk_exhaustive_eq:
  "sorted_wrt (\<lambda>a b. fst b < fst a) ps \<Longrightarrow>
     walk_exhaustive G rs groups p2 ps res = walk G rs groups p2 ps res"
proof (induction ps arbitrary: res)
  case Nil
  show ?case by simp
next
  case (Cons p1 older)
  show ?case
  proof (cases "snd p2 - fst p1 > MaxEntityLen")
    case True
    with Cons.prems have "\<forall>p\<in>set older. snd p2 - fst p > MaxEntityLen" by auto
    then have "walk_exhaustive G rs groups p2 older res = Inr res" by (rule walk_exhaustive_skip)
    with True show ?thesis by simp
  next
    case False
    from Cons.prems have "sorted_wrt (\<lambda>a b. fst b < fst a) older" by simp
    with Cons.IH False show ?thesis by (simp split: sum.splits)
  qed
qed

lemma spans_ok_fst_sorted: "spans_ok w \<Longrightarrow> sorted_wrt (\<lambda>a b. fst a < fst b) w"
proof -
  assume ok: "spans_ok w"
  then have "sorted_wrt (\<lambda>p q. snd p < fst q) w" and "\<forall>p\<in>set w. fst p < snd p"
    by (simp_all add: spans_ok_def)
  then show ?thesis
    by (induction w) auto
qed

lemma spans_ok_rev_sorted: "spans_ok w \<Longrightarrow> sorted_wrt (\<lambda>a b. fst b < fst a) (rev w)"
  using spans_ok_fst_sorted [of w] by (simp add: sorted_wrt_rev)

lemma spans_ok_lengths_increase: "spans_ok w \<Longrightarrow> lengths_increase w"
proof -
  assume "spans_ok w"
  then have "sorted_wrt (\<lambda>a b. fst b < fst a) (rev w)" by (rule spans_ok_rev_sorted)
  then have "sorted_wrt (\<lambda>a b. snd p2 - fst a < snd p2 - fst b) (rev w)" for p2 :: pair
    by (rule sorted_wrt_mono_rel [rotated]) simp
  then show ?thesis by (simp add: lengths_increase_def)
qed

lemma inv_window_ok: "inv st k \<Longrightarrow> spans_ok (fst (pairs st))"
  using invD(1,4) spans_ok_suffix by metis

lemma step_exhaustive_eq:
  assumes i: "inv st k" and r: "res_inv G rs groups st" and k: "k < length rs"
  shows "step_exhaustive G rs groups st k c = step G rs groups st k c"
proof (cases "(IsPunct G c \<or> IsSpace G c) \<and> \<not> prevSpace st")
  case False
  then show ?thesis by (auto simp: step_exhaustive_def step_def Let_def)
next
  case True
  from step_inv [OF i r k, of c] obtain st' where
    s: "step G rs groups st k c = Inr st'" and i': "inv st' (Suc k)"
    by blast
  from s True have "pairs st' = snd (shift G (start st, int k) (pairs st))"
    by (auto simp: step_def Let_def split: sum.splits if_splits)
  with inv_window_ok [OF i'] have "spans_ok (fst (snd (shift G (start st, int k) (pairs st))))"
    by simp
  then have "sorted_wrt (\<lambda>a b. fst b < fst a) (rev (fst (snd (shift G (start st, int k) (pairs st)))))"
    by (rule spans_ok_rev_sorted)
  then show ?thesis using True by (simp add: step_exhaustive_def step_def Let_def walk_exhaustive_eq)
qed

lemma loop_exhaustive_eq:
  assumes "inv st k" "res_inv G rs groups st" "k + length rest \<le> length rs"
  shows "loop_exhaustive G rs groups k rest st = loop G rs groups k rest st"
  using assms
proof (induction rest arbitrary: k st)
  case Nil
  show ?case by simp
next
  case (Cons c rest)
  from Cons.prems have k: "k < length rs" by simp
  have e: "step_exhaustive G rs groups st k c = step G rs groups st k c"
    using Cons.prems(1,2) k by (rule step_exhaustive_eq)
  from step_inv [OF Cons.prems(1,2) k, of c] obtain st1 where
    s: "step G rs groups st k c = Inr st1" and i1: "inv st1 (Suc k)" and r1: "res_inv G rs groups st1"
    by blast
  have "loop_exhaustive G rs groups (Suc k) rest st1 = loop G rs groups (Suc k) rest st1"
    using i1 r1 Cons.prems(3) by (intro Cons.IH) simp_all
  with e s show ?case by simp
qed

text \<open>
  Claim C5. At every point of the pass the candidate lengths \<^verbatim>\<open>p2[right] - p1[left]\<close>
  strictly increase as \<open>p1\<close> moves from the newest span of the window to the oldest
  (\<open>lengths_increase\<close>, for the state after each number \<open>k\<close> of iterations); and the
  search that stops the walk at the first candidate longer than \<^verbatim>\<open>MaxEntityLen\<close> returns
  exactly what the search with the exhaustive walk returns, for every input and every
  list of groups.
\<close>

theorem C5_early_exit_exhaustive:
  "find G rs groups = find_exhaustive G rs groups \<and>
   (\<forall>k\<le>length rs. \<exists>st. loop G rs groups 0 (take k rs) init = Inr st \<and>
        lengths_increase (fst (pairs st)))"
proof (intro conjI allI impI)
  have "loop_exhaustive G rs groups 0 rs init = loop G rs groups 0 rs init"
    using inv_init res_inv_init by (rule loop_exhaustive_eq) simp
  then show "find G rs groups = find_exhaustive G rs groups"
    by (simp add: find_def find_state_def find_exhaustive_def)
next
  fix k assume "k \<le> length rs"
  then have "0 + length (take k rs) \<le> length rs" by simp
  from loop_inv [OF inv_init res_inv_init this, of G groups] obtain st where
    l: "loop G rs groups 0 (take k rs) init = Inr st" and i: "inv st (0 + length (take k rs))"
    by blast
  have "lengths_increase (fst (pairs st))"
    using inv_window_ok [OF i] by (rule spans_ok_lengths_increase)
  with l show "\<exists>st. loop G rs groups 0 (take k rs) init = Inr st \<and> lengths_increase (fst (pairs st))"
    by blast
qed

theorem C5_early_exit_exhaustive_witness:
  "find gc_ascii (runes ''ab cd ef '') [] = find_exhaustive gc_ascii (runes ''ab cd ef '') [] \<and>
   (\<exists>st. loop gc_ascii (runes ''ab cd ef '') [] 0 (take 6 (runes ''ab cd ef '')) init = Inr st \<and>
        lengths_increase (fst (pairs st)))"
proof -
  have "6 \<le> length (runes ''ab cd ef '')" by (simp add: runes_def)
  with C5_early_exit_exhaustive [of gc_ascii "runes ''ab cd ef ''" "[]"] show ?thesis by blast
qed

section \<open>The spans the pass closes\<close>

lemma step_fields:
  assumes "step G rs groups st k c = Inr st'"
  shows "prevSpace st' = sep G c"
    "start st' = (if prevSpace st \<and> \<not> sep G c then int k else start st)"
    "pushed st' = (if sep G c \<and> \<not> prevSpace st then pushed st @ [(start st, int k)] else pushed st)"
  using assms
  by (auto simp: step_def sep_def Let_def split: if_splits sum.splits)

lemma word_span_closing:
  assumes k: "k < length rs" and sp: "sep G (rs ! k)" and s0: "s0 < k"
    and run: "\<forall>i\<in>{s0..<k}. \<not> sep G (rs ! i)" and st: "s0 = 0 \<or> sep G (rs ! (s0 - 1))"
  shows "word_span G rs s k \<longleftrightarrow> s = s0"
proof
  assume w: "word_span G rs s k"
  then have sk: "s < k" and r: "\<forall>i\<in>{s..<k}. \<not> sep G (rs ! i)" and b: "s = 0 \<or> sep G (rs ! (s - 1))"
    by (simp_all add: word_span_def)
  show "s = s0"
  proof (rule ccontr)
    assume "s \<noteq> s0"
    then consider "s < s0" | "s0 < s" by linarith
    then show False
    proof cases
      case 1
      then have "s0 - 1 \<in> {s..<k}" using s0 by auto
      with r have "\<not> sep G (rs ! (s0 - 1))" by blast
      with st 1 show False by simp
    next
      case 2
      then have "s - 1 \<in> {s0..<k}" using sk by auto
      with run have "\<not> sep G (rs ! (s - 1))" by blast
      with b 2 show False by simp
    qed
  qed
next
  assume "s = s0"
  with assms show "word_span G rs s k" by (simp add: word_span_def)
qed

lemma word_span_not_closing:
  assumes k: "k < length rs" and n: "\<not> sep G (rs ! k) \<or> k = 0 \<or> sep G (rs ! (k - 1))"
  shows "\<not> word_span G rs s k"
proof
  assume w: "word_span G rs s k"
  then have sk: "s < k" and r: "\<forall>i\<in>{s..<k}. \<not> sep G (rs ! i)" and e: "k = length rs \<or> sep G (rs ! k)"
    by (simp_all add: word_span_def)
  from sk have "k - 1 \<in> {s..<k}" by auto
  with r have "\<not> sep G (rs ! (k - 1))" by blast
  with n e k sk show False by auto
qed

lemma closed_spans_Suc:
  "{(int s, int e) | s e. word_span G rs s e \<and> e < Suc k} =
   {(int s, int e) | s e. word_span G rs s e \<and> e < k} \<union> {(int s, int k) | s. word_span G rs s k}"
  by (auto simp: less_Suc_eq)

lemma step_tok_inv:
  assumes t: "tok_inv G rs st k" and k: "k < length rs"
    and s: "step G rs groups st k (rs ! k) = Inr st'"
  shows "tok_inv G rs st' (Suc k)"
proof -
  note f = step_fields [OF s]
  from t have ps: "prevSpace st \<longleftrightarrow> (k = 0 \<or> sep G (rs ! (k - 1)))"
    and run: "\<not> prevSpace st \<Longrightarrow> 0 \<le> start st \<and> nat (start st) < k \<and>
         (\<forall>i\<in>{nat (start st)..<k}. \<not> sep G (rs ! i)) \<and>
         (nat (start st) = 0 \<or> sep G (rs ! (nat (start st) - 1)))"
    and pu: "set (pushed st) = {(int s, int e) | s e. word_span G rs s e \<and> e < k}"
    by (simp_all add: tok_inv_def)
  have a1: "prevSpace st' \<longleftrightarrow> (Suc k = 0 \<or> sep G (rs ! (Suc k - 1)))" using f(1) by simp
  have a2: "0 \<le> start st' \<and> nat (start st') < Suc k \<and>
         (\<forall>i\<in>{nat (start st')..<Suc k}. \<not> sep G (rs ! i)) \<and>
         (nat (start st') = 0 \<or> sep G (rs ! (nat (start st') - 1)))" if np: "\<not> prevSpace st'"
  proof (cases "prevSpace st")
    case True
    with np f have "start st' = int k" by simp
    with np f(1) ps True show ?thesis by auto
  next
    case False
    with np f have "start st' = start st" by simp
    with run [OF False] np f(1) show ?thesis by (auto simp: less_Suc_eq)
  qed
  have a3: "set (pushed st') = {(int s, int e) | s e. word_span G rs s e \<and> e < Suc k}"
  proof (cases "sep G (rs ! k) \<and> \<not> prevSpace st")
    case True
    then have np: "\<not> prevSpace st" by simp
    note r = run [OF np]
    have "word_span G rs s k \<longleftrightarrow> s = nat (start st)" for s
      using k True r by (intro word_span_closing) simp_all
    then have "{(int s, int k) | s. word_span G rs s k} = {(start st, int k)}"
      using r by auto
    with True f(3) pu show ?thesis by (simp add: closed_spans_Suc)
  next
    case False
    then have "\<not> sep G (rs ! k) \<or> k = 0 \<or> sep G (rs ! (k - 1))" using ps by auto
    with k have "\<not> word_span G rs s k" for s by (rule word_span_not_closing)
    then have "{(int s, int k) | s. word_span G rs s k} = {}" by simp
    with False f(3) pu show ?thesis unfolding closed_spans_Suc by auto
  qed
  from a1 a2 a3 show ?thesis unfolding tok_inv_def by blast
qed

lemma loop_tok_inv:
  assumes "tok_inv G rs st k" "rest = drop k rs" "k \<le> length rs"
    "loop G rs groups k rest st = Inr st'"
  shows "tok_inv G rs st' (length rs)"
  using assms
proof (induction rest arbitrary: k st)
  case Nil
  then have "k = length rs" "st' = st" by simp_all
  with Nil.prems(1) show ?case by simp
next
  case (Cons c rest)
  from Cons.prems(2) have k: "k < length rs" by (cases "k < length rs") simp_all
  then have "rs ! k # drop (Suc k) rs = drop k rs" by (rule Cons_nth_drop_Suc)
  with Cons.prems(2) have "c # rest = rs ! k # drop (Suc k) rs" by simp
  then have c: "c = rs ! k" and r: "rest = drop (Suc k) rs" by simp_all
  from Cons.prems(4) obtain st1 where s: "step G rs groups st k c = Inr st1"
    and l: "loop G rs groups (Suc k) rest st1 = Inr st'"
    by (auto split: sum.splits)
  have t1: "tok_inv G rs st1 (Suc k)" using Cons.prems(1) k s unfolding c by (rule step_tok_inv)
  have "Suc k \<le> length rs" using k by simp
  from Cons.IH [OF t1 r this l] show ?case .
qed

lemma tok_inv_init: "tok_inv G rs init 0"
  by (simp add: tok_inv_def init_def)

lemma find_state_tokens:
  "find_state G rs groups = Inr st \<Longrightarrow> tok_inv G rs st (length rs)"
  using loop_tok_inv [OF tok_inv_init, of rs rs G groups st] by (simp add: find_state_def)

lemma match_ends_before:
  assumes i: "inv st (length rs)" and r: "res_inv G rs groups st"
    and m: "m \<in> set (lookup (results st) name)"
  shows "Offset m + int (length (Text m)) < int (length rs)"
proof -
  note d = invD [OF i]
  from m r have "m \<in> set (all_hits G rs groups name (pushed st))" by (simp add: res_inv_def)
  from hits_sound [OF this d(1)] obtain p1 p2 where
    p: "p1 \<in> set (pushed st)" "p2 \<in> set (pushed st)" "fst p1 < snd p2" and
    mm: "m = \<lparr>Text = candidate rs p1 p2, Offset = fst p1\<rparr>"
    by auto
  have b: "0 \<le> fst p1" using d(1) p(1) by (auto simp: spans_ok_def)
  have u: "snd p2 < int (length rs)" using d(2) p(2) by auto
  have "int (length (candidate rs p1 p2)) = snd p2 - fst p1"
    using b p(3) u by (intro length_candidate) simp_all
  with mm u show ?thesis by simp
qed

text \<open>
  Claim C2. The pass never panics, and the spans it hands to \<open>shift\<close> (\<open>pushed\<close>) are
  exactly the maximal runs of non-separator characters that end before the end of the
  input, each once and in order of occurrence (every span lies wholly before the next
  one). A run that reaches the end of the input is not among them, and no reported
  match ends at the end of the input: a match ends where a separator stands.
\<close>

theorem C2_tokenizer_spans:
  "\<exists>st. find_state G rs groups = Inr st \<and>
     set (pushed st) = {(int s, int e) | s e. word_span G rs s e \<and> e < length rs} \<and>
     sorted_wrt (\<lambda>p q. snd p < fst q) (pushed st) \<and>
     (\<forall>s. word_span G rs s (length rs) \<longrightarrow> (int s, int (length rs)) \<notin> set (pushed st)) \<and>
     (\<forall>name. \<forall>m\<in>set (lookup (results st) name).
        Offset m + int (length (Text m)) < int (length rs))"
proof -
  from find_state_total [of G rs groups] obtain st where
    f: "find_state G rs groups = Inr st" and i: "inv st (length rs)" and r: "res_inv G rs groups st"
    by blast
  have t: "set (pushed st) = {(int s, int e) | s e. word_span G rs s e \<and> e < length rs}"
    using find_state_tokens [OF f] by (simp add: tok_inv_def)
  have "sorted_wrt (\<lambda>p q. snd p < fst q) (pushed st)"
    using invD(1) [OF i] by (simp add: spans_ok_def)
  moreover have "(int s, int (length rs)) \<notin> set (pushed st)" for s
    unfolding t by auto
  moreover have "Offset m + int (length (Text m)) < int (length rs)"
    if "m \<in> set (lookup (results st) name)" for m name
    using i r that by (rule match_ends_before)
  ultimately show ?thesis using f t by blast
qed

lemma trailing_word_spans:
  "(case find_state gc_ascii (runes ''ab cd'') [] of
      Inl e \<Rightarrow> False
    | Inr st \<Rightarrow> pushed st = [(0, 2)])"
  by code_simp

theorem C2_tokenizer_spans_witness:
  "\<exists>st. find_state gc_ascii (runes ''ab cd'') [] = Inr st \<and> pushed st = [(0, 2)] \<and>
     word_span gc_ascii (runes ''ab cd'') 0 2 \<and> word_span gc_ascii (runes ''ab cd'') 3 5 \<and>
     (int 3, int (length (runes ''ab cd''))) \<notin> set (pushed st)"
proof -
  from C2_tokenizer_spans [of gc_ascii "runes ''ab cd''" "[]"] obtain st where
    f: "find_state gc_ascii (runes ''ab cd'') [] = Inr st" and
    t: "\<forall>s. word_span gc_ascii (runes ''ab cd'') s (length (runes ''ab cd'')) \<longrightarrow>
          (int s, int (length (runes ''ab cd''))) \<notin> set (pushed st)"
    by blast
  have w1: "word_span gc_ascii (runes ''ab cd'') 0 2" by code_simp
  have w2: "word_span gc_ascii (runes ''ab cd'') 3 5" by code_simp
  have l: "length (runes ''ab cd'') = 5" by (simp add: runes_def)
  have "word_span gc_ascii (runes ''ab cd'') 3 (length (runes ''ab cd''))" using w2 l by simp
  with t have "(int 3, int (length (runes ''ab cd''))) \<notin> set (pushed st)" by blast
  moreover from trailing_word_spans f have "pushed st = [(0, 2)]" by simp
  ultimately show ?thesis using f w1 w2 by blast
qed

section \<open>The key determines the length\<close>

lemma undecimal_snoc: "undecimal (ds @ [d]) = 10 * undecimal ds + nat (d - 48)"
  by (simp add: undecimal_def)

lemma undecimal_decimal: "undecimal (decimal n) = n"
proof (induction n rule: decimal.induct)
  case (1 n)
  show ?case
  proof (cases "n < 10")
    case True
    then show ?thesis by (simp add: decimal.simps [of n] undecimal_def)
  next
    case False
    with 1 have "undecimal (decimal (n div 10)) = n div 10" by simp
    with False show ?thesis by (simp add: decimal.simps [of n] undecimal_snoc)
  qed
qed

lemma undecimal_zeros: "undecimal (replicate k 48 @ ds) = undecimal ds"
proof -
  have "foldl (\<lambda>acc d. 10 * acc + nat (d - 48)) 0 (replicate k 48) = 0"
    by (induction k) simp_all
  then show ?thesis by (simp add: undecimal_def)
qed

lemma undecimal_fmt: "undecimal (fmt_03d n) = n"
  by (simp add: fmt_03d_def undecimal_zeros undecimal_decimal)

lemma fmt_03d_inj: "fmt_03d n = fmt_03d m \<Longrightarrow> n = m"
  by (metis undecimal_fmt)

lemma length_decimal_small: "n < 10 \<Longrightarrow> length (decimal n) = 1"
  by (simp add: decimal.simps [of n])

lemma length_fmt_small: "n < 10 \<Longrightarrow> length (fmt_03d n) = 3"
  by (simp add: fmt_03d_def length_decimal_small)

lemma length_fmt_ge: "3 \<le> length (fmt_03d n)"
  by (simp add: fmt_03d_def)

lemma length_prefix:
  "length (concat (map (\<lambda>r. string_of_rune (ToLower G r)) xs)) = length xs"
  by (induction xs) (simp_all add: string_of_rune_def)

lemma hash_spec_length:
  assumes "hash_spec G a = hash_spec G b"
  shows "length a = length b"
proof -
  let ?pa = "concat (map (\<lambda>r. string_of_rune (ToLower G r)) (take (min 3 (length a)) a))"
  let ?pb = "concat (map (\<lambda>r. string_of_rune (ToLower G r)) (take (min 3 (length b)) b))"
  have la: "length ?pa = min 3 (length a)" and lb: "length ?pb = min 3 (length b)"
    by (simp_all add: length_prefix)
  from assms have eq: "?pa @ fmt_03d (length a) = ?pb @ fmt_03d (length b)"
    by (simp add: hash_spec_def)
  then have len: "min 3 (length a) + length (fmt_03d (length a)) =
      min 3 (length b) + length (fmt_03d (length b))"
    using la lb by (metis length_append)
  consider (small) "length a < 3" "length b < 3" | (big) "3 \<le> length a" "3 \<le> length b"
    | (ab) "length a < 3" "3 \<le> length b" | (ba) "3 \<le> length a" "length b < 3"
    by linarith
  then show ?thesis
  proof cases
    case small
    then have "length (fmt_03d (length a)) = 3" "length (fmt_03d (length b)) = 3"
      by (simp_all add: length_fmt_small)
    with len small show ?thesis by simp
  next
    case big
    then have "length ?pa = length ?pb" using la lb by simp
    with eq have "fmt_03d (length a) = fmt_03d (length b)" by simp
    then show ?thesis by (rule fmt_03d_inj)
  next
    case ab
    then have "length (fmt_03d (length a)) = 3" by (simp add: length_fmt_small)
    with len ab length_fmt_ge [of "length b"] show ?thesis by simp
  next
    case ba
    then have "length (fmt_03d (length b)) = 3" by (simp add: length_fmt_small)
    with len ba length_fmt_ge [of "length a"] show ?thesis by simp
  qed
qed

lemma fold_eq_hash_spec:
  assumes "map (ToLower G) a = map (ToLower G) b"
  shows "hash_spec G a = hash_spec G b"
proof (rule hash_spec_cong)
  show "length a = length b" using assms by (rule map_eq_imp_length_eq)
  have "take 3 (map (ToLower G) a) = take 3 (map (ToLower G) b)" using assms by simp
  then show "map (ToLower G) (take 3 a) = map (ToLower G) (take 3 b)" by (simp add: take_map)
qed

section \<open>Occurrences that the search reports\<close>

lemma word_span_from_start:
  assumes a: "\<not> sep G (rs ! a)" "a = 0 \<or> sep G (rs ! (a - 1))"
    and b: "a < b" "b < length rs" "sep G (rs ! b)"
  shows "\<exists>e. a < e \<and> e \<le> b \<and> word_span G rs a e"
proof -
  define e where "e = (LEAST x. a < x \<and> sep G (rs ! x))"
  have ex: "a < b \<and> sep G (rs ! b)" using b by simp
  have e1: "a < e \<and> sep G (rs ! e)" unfolding e_def using ex by (rule LeastI)
  have e2: "e \<le> b" unfolding e_def using ex by (rule Least_le)
  have run: "\<not> sep G (rs ! i)" if "i \<in> {a..<e}" for i
  proof (cases "i = a")
    case True
    with a show ?thesis by simp
  next
    case False
    with that have ai: "a < i" "i < e" by auto
    show ?thesis
    proof
      assume "sep G (rs ! i)"
      with ai have "e \<le> i" unfolding e_def by (intro Least_le) simp
      with ai show False by simp
    qed
  qed
  have "word_span G rs a e"
    unfolding word_span_def using e1 e2 b a run by auto
  with e1 e2 show ?thesis by blast
qed

lemma word_span_to_end:
  assumes ab: "a < b" "b \<le> length rs" and l: "\<not> sep G (rs ! (b - 1))"
    and a: "a = 0 \<or> sep G (rs ! (a - 1))" and e: "b = length rs \<or> sep G (rs ! b)"
  shows "\<exists>s. a \<le> s \<and> s < b \<and> word_span G rs s b"
proof -
  define Q where "Q x = (a \<le> x \<and> (\<forall>i\<in>{x..<b}. \<not> sep G (rs ! i)))" for x
  define s where "s = (LEAST x. Q x)"
  have "{b - 1..<b} = {b - 1}" using ab by auto
  then have ex: "Q (b - 1)" using ab l by (simp add: Q_def)
  have qs: "Q s" unfolding s_def using ex by (rule LeastI)
  have sb: "s \<le> b - 1" unfolding s_def using ex by (rule Least_le)
  have st: "s = 0 \<or> sep G (rs ! (s - 1))"
  proof (rule ccontr)
    assume "\<not> (s = 0 \<or> sep G (rs ! (s - 1)))"
    then have n: "s \<noteq> 0" "\<not> sep G (rs ! (s - 1))" by simp_all
    with a qs have "a < s" by (cases "s = a") (auto simp: Q_def)
    moreover have "{s - 1..<b} = insert (s - 1) {s..<b}" using n sb ab by auto
    ultimately have "Q (s - 1)" using qs n by (simp add: Q_def)
    then have "s \<le> s - 1" unfolding s_def by (rule Least_le)
    with n show False by simp
  qed
  have "word_span G rs s b"
    unfolding word_span_def using qs sb st ab e by (auto simp: Q_def)
  with qs sb ab show ?thesis by (auto simp: Q_def)
qed

lemma spans_nth_order:
  assumes "spans_ok xs" "i < j" "j < length xs"
  shows "snd (xs ! i) < fst (xs ! j)"
proof -
  from assms(1) have "sorted_wrt (\<lambda>p q. snd p < fst q) xs" by (simp add: spans_ok_def)
  from sorted_wrt_nth_less [OF this assms(2,3)] show ?thesis .
qed

lemma spans_nth_pos:
  assumes "spans_ok xs" "i < length xs"
  shows "0 \<le> fst (xs ! i)" "fst (xs ! i) < snd (xs ! i)"
  using assms by (simp_all add: spans_ok_def)

lemma spans_fst_le_index:
  assumes ok: "spans_ok xs" and l: "i < length xs" "j < length xs"
    and f: "fst (xs ! i) \<le> fst (xs ! j)"
  shows "i \<le> j"
proof (rule ccontr)
  assume "\<not> i \<le> j"
  then have "j < i" by simp
  from spans_nth_order [OF ok this l(1)] spans_nth_pos(2) [OF ok l(2)] f show False by simp
qed

lemma spans_snd_le_index:
  assumes ok: "spans_ok xs" and l: "i < length xs" "j < length xs"
    and f: "snd (xs ! i) \<le> snd (xs ! j)"
  shows "i \<le> j"
proof (rule ccontr)
  assume "\<not> i \<le> j"
  then have "j < i" by simp
  from spans_nth_order [OF ok this l(1)] spans_nth_pos(2) [OF ok l(1)] f show False by simp
qed

lemma spans_distinct: "spans_ok xs \<Longrightarrow> distinct xs"
proof -
  assume ok: "spans_ok xs"
  have "i = j" if "i < length xs" "j < length xs" "xs ! i = xs ! j" for i j
    using spans_fst_le_index [OF ok that(1,2)] spans_fst_le_index [OF ok that(2,1)] that(3)
    by simp
  then show ?thesis by (simp add: distinct_conv_nth) blast
qed

lemma count_concat_unique:
  assumes "distinct xs" "x \<in> set xs" "\<forall>y\<in>set xs. y \<noteq> x \<longrightarrow> E \<notin> set (f y)"
  shows "count_list (concat (map f xs)) E = count_list (f x) E"
  using assms
proof (induction xs)
  case Nil
  then show ?case by simp
next
  case (Cons y ys)
  show ?case
  proof (cases "y = x")
    case True
    with Cons.prems have "\<forall>z\<in>set ys. E \<notin> set (f z)" by auto
    then have "E \<notin> set (concat (map f ys))" by auto
    with True show ?thesis by simp
  next
    case False
    with Cons.prems have "E \<notin> set (f y)" "distinct ys" "x \<in> set ys"
      "\<forall>z\<in>set ys. z \<noteq> x \<longrightarrow> E \<notin> set (f z)"
      by auto
    with Cons.IH show ?thesis by simp
  qed
qed

lemma count_map_const: "count_list (map (\<lambda>z. E) zs) E = length zs"
  by (induction zs) simp_all

lemma in_takeWhile_sorted:
  fixes ys :: "pair list"
  assumes "sorted_wrt (\<lambda>a b. fst b < fst a) ys" "x \<in> set ys"
    "\<forall>y\<in>set ys. fst x \<le> fst y \<longrightarrow> Q y"
  shows "x \<in> set (takeWhile Q ys)"
  using assms
proof (induction ys)
  case Nil
  then show ?case by simp
next
  case (Cons y ys)
  show ?case
  proof (cases "x = y")
    case True
    with Cons.prems(3) show ?thesis by simp
  next
    case False
    with Cons.prems have xin: "x \<in> set ys" by simp
    with Cons.prems(1) have "fst x < fst y" by auto
    with Cons.prems(3) have "Q y" by simp
    moreover have "x \<in> set (takeWhile Q ys)"
      using Cons.prems xin by (intro Cons.IH) simp_all
    ultimately show ?thesis by simp
  qed
qed

lemma cand_hits_member:
  "m \<in> set (cand_hits G rs groups name p1 p2) \<Longrightarrow>
     m = \<lparr>Text = candidate rs p1 p2, Offset = fst p1\<rparr>"
  by (auto simp: cand_hits_def group_hits_def split: if_splits option.splits)

lemma walk_hits_member:
  "m \<in> set (walk_hits G rs groups name p2 ps) \<Longrightarrow>
     \<exists>p1\<in>set ps. m = \<lparr>Text = candidate rs p1 p2, Offset = fst p1\<rparr>"
  by (auto simp: walk_hits_def dest: set_takeWhileD cand_hits_member)

lemma bucket_of_phrase:
  assumes g: "group_ok G g name ps" and P: "P \<in> set ps"
    and c: "map (ToLower G) cand = map (ToLower G) P"
  shows "\<exists>ents. Entities g (hash_spec G cand) = Some ents \<and>
     length (bucket_hits G cand ents) = length (filter (same_phrase G P) ps)"
proof -
  let ?k = "hash_spec G cand"
  from g have b: "lookup (Entities g) ?k = filter (\<lambda>p. hash_spec G p = ?k) ps"
    by (simp add: group_ok_def)
  have kP: "hash_spec G P = ?k" using c [symmetric] by (rule fold_eq_hash_spec)
  with P have "P \<in> set (lookup (Entities g) ?k)" using b by simp
  then obtain ents where e: "Entities g ?k = Some ents"
    by (cases "Entities g ?k") (auto simp: lookup_def)
  with b have ents: "ents = filter (\<lambda>p. hash_spec G p = ?k) ps" by (simp add: lookup_def)
  have "\<forall>p\<in>set ents. length p = length cand"
    using ents by (auto dest: hash_spec_length)
  then have tw: "takeWhile (\<lambda>ent. length ent = length cand) ents = ents"
    by (simp add: takeWhile_eq_all_conv)
  have "(map (ToLower G) p = map (ToLower G) cand \<and> hash_spec G p = ?k) = same_phrase G P p" for p
  proof (cases "map (ToLower G) p = map (ToLower G) cand")
    case True
    then have "hash_spec G p = ?k" by (rule fold_eq_hash_spec)
    with True c show ?thesis by (simp add: same_phrase_def)
  next
    case False
    with c show ?thesis by (simp add: same_phrase_def)
  qed
  then have ff: "filter (\<lambda>ent. map (ToLower G) ent = map (ToLower G) cand)
          (filter (\<lambda>p. hash_spec G p = ?k) ps) =
        filter (same_phrase G P) ps"
    by (simp add: conj_commute)
  have "bucket_hits G cand ents = filter (\<lambda>ent. map (ToLower G) ent = map (ToLower G) cand) ents"
    unfolding bucket_hits_def tw ..
  also have "\<dots> = filter (same_phrase G P) ps" unfolding ents by (rule ff)
  finally show ?thesis using e by simp
qed

lemma max_len_ge: "p \<in> set ps \<Longrightarrow> int (length p) \<le> max_len ps"
  unfolding max_len_def by (rule Max_ge) auto

lemma span_mem:
  "set xs = {(int s, int e) | s e. word_span G rs s e \<and> e < length rs} \<Longrightarrow>
     word_span G rs s e \<Longrightarrow> e < length rs \<Longrightarrow> (int s, int e) \<in> set xs"
  by blast

lemma hits_count:
  assumes ok: "spans_ok xs" and bound: "\<forall>p\<in>set xs. snd p < int (length rs)"
    and tok: "set xs = {(int s, int e) | s e. word_span G rs s e \<and> e < length rs}"
    and g: "group_ok G g name ps" and P: "P \<in> set ps" and rep: "reported_at G rs P off"
  shows "count_list (all_hits G rs [g] name xs) (occurrence rs P off) =
         length (filter (same_phrase G P) ps)"
proof -
  let ?n = "length P"
  let ?e = "off + ?n"
  let ?E = "occurrence rs P off"
  from rep have occ: "occurs_at G rs P off" and short: "int ?n \<le> MaxEntityLen"
    and e_lt: "?e < length rs"
    and first: "\<exists>i\<in>{1..<?e}. sep G (rs ! i) \<and> \<not> sep G (rs ! (i - 1))"
    by (simp_all add: reported_at_def)
  from occ e_lt have ne: "P \<noteq> []"
    and fold: "map (ToLower G) (take ?n (drop off rs)) = map (ToLower G) P"
    and b1: "off = 0 \<or> sep G (rs ! (off - 1))" and b2: "\<not> sep G (rs ! off)"
    and b3: "\<not> sep G (rs ! (?e - 1))" and b4: "sep G (rs ! ?e)"
    by (simp_all add: occurs_at_def)
  have n_pos: "0 < ?n" using ne by simp
  \<comment> \<open>the first and the last word of the occurrence are spans of the list\<close>
  from word_span_from_start [OF b2 b1 _ e_lt b4] n_pos obtain e1 where
    e1: "off < e1" "e1 \<le> ?e" "word_span G rs off e1"
    by auto
  from word_span_to_end [of off ?e rs G] n_pos e_lt b3 b1 b4 obtain s2 where
    s2: "off \<le> s2" "s2 < ?e" "word_span G rs s2 ?e"
    by auto
  from first obtain i0 where i0: "1 \<le> i0" "i0 < ?e" "sep G (rs ! i0)" "\<not> sep G (rs ! (i0 - 1))"
    by auto
  from word_span_to_end [of 0 i0 rs G] i0 e_lt obtain s0 where s0: "word_span G rs s0 i0"
    by auto
  have "e1 < length rs" using e1 e_lt by simp
  with tok e1(3) have "(int off, int e1) \<in> set xs" by (rule span_mem)
  then obtain i where i: "i < length xs" "xs ! i = (int off, int e1)"
    by (auto simp: in_set_conv_nth)
  from tok s2(3) e_lt have "(int s2, int ?e) \<in> set xs" by (rule span_mem)
  then obtain j where j: "j < length xs" "xs ! j = (int s2, int ?e)"
    by (auto simp: in_set_conv_nth)
  have "i0 < length rs" using i0 e_lt by simp
  with tok s0 have "(int s0, int i0) \<in> set xs" by (rule span_mem)
  then obtain j0 where j0: "j0 < length xs" "xs ! j0 = (int s0, int i0)"
    by (auto simp: in_set_conv_nth)
  have ij: "i \<le> j" using ok i(1) j(1) by (rule spans_fst_le_index) (simp add: i j s2)
  have "j0 \<le> j" using ok j0(1) j(1) by (rule spans_snd_le_index) (use i0 j0 j in simp)
  moreover have "j0 \<noteq> j" using j0 j i0 by auto
  ultimately have j1: "1 \<le> j" by simp
  let ?p1 = "xs ! i" and ?p2 = "xs ! j"
  have cand: "candidate rs ?p1 ?p2 = take ?n (drop off rs)"
    by (simp add: candidate_def i j)
  have E: "?E = \<lparr>Text = candidate rs ?p1 ?p2, Offset = fst ?p1\<rparr>"
    unfolding occurrence_def cand by (simp add: i)
  have lenE: "length (Text ?E) = ?n" using e_lt by (simp add: occurrence_def)
  \<comment> \<open>a record of a candidate is the occurrence only for the candidate \<open>(p1, p2)\<close>\<close>
  have key: "fst q1 = int off \<and> snd q2 = int ?e"
    if m: "?E = \<lparr>Text = candidate rs q1 q2, Offset = fst q1\<rparr>"
      and q: "q1 \<in> set xs" "q2 \<in> set xs" "fst q1 < snd q2" for q1 q2
  proof -
    from m have o: "fst q1 = int off" and t: "Text ?E = candidate rs q1 q2"
      by (simp_all add: occurrence_def)
    have "0 \<le> fst q1" using ok q(1) by (auto simp: spans_ok_def)
    moreover have "snd q2 \<le> int (length rs)" using bound q(2) by auto
    ultimately have "int (length (candidate rs q1 q2)) = snd q2 - fst q1"
      using q(3) by (intro length_candidate) simp_all
    with t lenE o show ?thesis by simp
  qed
  \<comment> \<open>only the walk for \<open>p2\<close> reports the occurrence\<close>
  let ?W = "\<lambda>j'. walk_hits G rs [g] name (xs ! j') (rev (take (Suc j') xs))"
  have other_walk: "?E \<notin> set (?W j')" if j': "j' \<in> set [1..<length xs]" "j' \<noteq> j" for j'
  proof
    assume "?E \<in> set (?W j')"
    from walk_hits_member [OF this] obtain q1 where
      q1: "q1 \<in> set (take (Suc j') xs)" and m: "?E = \<lparr>Text = candidate rs q1 (xs ! j'), Offset = fst q1\<rparr>"
      by auto
    have l: "last (take (Suc j') xs) = xs ! j'" using j' by (simp add: take_Suc_conv_app_nth)
    have "fst q1 < snd (last (take (Suc j') xs))"
      using spans_ok_take [OF ok] q1 by (rule spans_ok_fst_last)
    then have lt: "fst q1 < snd (xs ! j')" using l by simp
    have "q1 \<in> set xs" using q1 by (rule in_set_takeD)
    moreover have "xs ! j' \<in> set xs" using j' by simp
    ultimately have "snd (xs ! j') = int ?e" using key [OF m] lt by simp
    then have "snd (xs ! j') = snd (xs ! j)" using j by simp
    then have "j' \<le> j" "j \<le> j'"
      using spans_snd_le_index [OF ok, of j' j] spans_snd_le_index [OF ok, of j j'] j' j(1)
      by simp_all
    with j'(2) show False by simp
  qed
  have c1: "count_list (all_hits G rs [g] name xs) ?E = count_list (?W j) ?E"
    unfolding all_hits_def
    by (rule count_concat_unique) (use j j1 other_walk in auto)
  \<comment> \<open>in that walk only the candidate starting at \<open>p1\<close> reports it, and the walk reaches it\<close>
  let ?Q = "\<lambda>p1. \<not> snd ?p2 - fst p1 > MaxEntityLen"
  let ?ys = "rev (take (Suc j) xs)"
  let ?C = "\<lambda>p1. cand_hits G rs [g] name p1 ?p2"
  have okt: "spans_ok (take (Suc j) xs)" using ok by (rule spans_ok_take)
  have sorted: "sorted_wrt (\<lambda>a b. fst b < fst a) ?ys" using okt by (rule spans_ok_rev_sorted)
  have p1in: "?p1 \<in> set ?ys" using ij j(1) by (auto simp: in_set_conv_nth intro!: exI [of _ i])
  have "\<forall>y\<in>set ?ys. fst ?p1 \<le> fst y \<longrightarrow> ?Q y"
    using short by (auto simp: i j)
  with sorted p1in have p1tw: "?p1 \<in> set (takeWhile ?Q ?ys)" by (rule in_takeWhile_sorted)
  have dist: "distinct (takeWhile ?Q ?ys)"
    using spans_distinct [OF okt] by (intro distinct_takeWhile) simp
  have other_cand: "?E \<notin> set (?C q1)" if q: "q1 \<in> set (takeWhile ?Q ?ys)" "q1 \<noteq> ?p1" for q1
  proof
    assume "?E \<in> set (?C q1)"
    then have m: "?E = \<lparr>Text = candidate rs q1 ?p2, Offset = fst q1\<rparr>" by (rule cand_hits_member)
    then have o: "fst q1 = int off" by (simp add: occurrence_def)
    from q(1) have "q1 \<in> set (take (Suc j) xs)" by (auto dest: set_takeWhileD)
    then have "q1 \<in> set xs" by (rule in_set_takeD)
    then obtain i' where i': "i' < length xs" "xs ! i' = q1" by (auto simp: in_set_conv_nth)
    with o i have "fst (xs ! i') = fst (xs ! i)" by simp
    then have "i' \<le> i" "i \<le> i'"
      using spans_fst_le_index [OF ok, of i' i] spans_fst_le_index [OF ok, of i i'] i' i(1)
      by simp_all
    with i' q(2) show False by simp
  qed
  have c2: "count_list (?W j) ?E = count_list (?C ?p1) ?E"
    unfolding walk_hits_def
    by (rule count_concat_unique) (use dist p1tw other_cand in auto)
  \<comment> \<open>the bucket of the candidate holds the phrases with the key of \<open>P\<close>\<close>
  from g have nm: "Name g = name" and ml: "MaxLen g = max_len ps" by (simp_all add: group_ok_def)
  have "int ?n \<le> MaxLen g" using ml max_len_ge [OF P] by simp
  then have fits: "\<not> snd ?p2 - fst ?p1 > MaxLen g" by (simp add: i j)
  have "map (ToLower G) (candidate rs ?p1 ?p2) = map (ToLower G) P" using fold cand by simp
  from bucket_of_phrase [OF g P this] obtain ents where
    ents: "Entities g (hash_spec G (candidate rs ?p1 ?p2)) = Some ents" and
    bl: "length (bucket_hits G (candidate rs ?p1 ?p2) ents) = length (filter (same_phrase G P) ps)"
    by blast
  have "?C ?p1 = map (\<lambda>ent. ?E) (bucket_hits G (candidate rs ?p1 ?p2) ents)"
    using nm fits ents E by (simp add: cand_hits_def group_hits_def)
  then have c3: "count_list (?C ?p1) ?E = length (filter (same_phrase G P) ps)"
    using bl by (simp add: count_map_const)
  from c1 c2 c3 show ?thesis by simp
qed

lemma FindAll_count:
  assumes b: "add_all G (New names) calls = Inr s" and P: "P \<in> set (phrases_of name calls)"
    and rep: "reported_at G rs P off"
  shows "\<exists>res. FindAll G s rs = Inr res \<and>
     count_list (lookup res name) (occurrence rs P off) =
       length (filter (same_phrase G P) (phrases_of name calls))"
proof -
  have ok: "store_ok G s calls" using b by (rule built_ok)
  then have d: "distinct (map fst s)" by (simp add: store_ok_def)
  have "name \<in> fst ` set s"
  proof (rule ccontr)
    assume "name \<notin> fst ` set s"
    with ok have "phrases_of name calls = []" by (simp add: store_ok_def)
    with P show False by simp
  qed
  then obtain g where g: "map_of s name = Some g"
    by (cases "map_of s name") (auto simp: map_of_eq_None_iff)
  with ok have gok: "group_ok G g name (phrases_of name calls)" by (simp add: store_ok_def)
  then have nm: "Name g = name" by (simp add: group_ok_def)
  from find_groups_lookup [OF d g, of G rs Map.empty] obtain res found where
    r: "FindAll G s rs = Inr res" and f: "Find G g rs = Inr found" and l: "res name = Some found"
    by (auto simp: FindAll_def)
  from Find_eq [of G rs g] obtain st where
    st: "find_state G rs [g] = Inr st" and i: "inv st (length rs)" and
    fe: "Find G g rs = Inr (all_hits G rs [g] (Name g) (pushed st))"
    by blast
  from f fe l nm have lk: "lookup res name = all_hits G rs [g] name (pushed st)"
    by (simp add: lookup_def)
  have tok: "set (pushed st) = {(int s, int e) | s e. word_span G rs s e \<and> e < length rs}"
    using find_state_tokens [OF st] by (simp add: tok_inv_def)
  have "count_list (all_hits G rs [g] name (pushed st)) (occurrence rs P off) =
      length (filter (same_phrase G P) (phrases_of name calls))"
    using invD(1,2) [OF i] tok gok P rep by (rule hits_count)
  with r lk show ?thesis by simp
qed

section \<open>Evaluation at concrete inputs\<close>

lemma replicate_2: "replicate 2 x = [x, x]"
  by (simp add: numeral_2_eq_2)

lemmas eval_defs = replicate_2 FindAll_def Find_def find_def find_state_def init_def step_def
  shift_def append1_def tail1_def check_group_def hash_def index_def slice_def
  string_of_rune_def fmt_03d_def decimal.simps record_match_def lookup_def MaxEntityLen_def
  gc_ascii_def runes_def Add_def New_def new_group_def Let_def

lemma php_store_built:
  "add_all gc_ascii (New [''skills'']) [(''skills'', [runes ''PHP''])] = Inr php_store"
  by (simp add: eval_defs php_store_def)

lemma dup_store_built:
  "add_all gc_ascii (New [''skills'']) [(''skills'', [runes ''PHP'', runes ''php''])] = Inr dup_store"
  by (simp add: eval_defs dup_store_def)

lemma long_store_built:
  "add_all gc_ascii (New [''skills'']) [(''skills'', [long_phrase])] = Inr long_store"
  by (simp add: eval_defs long_store_def long_phrase_def)

lemma php_reported: "reported_at gc_ascii (runes ''x php, '') (runes ''PHP'') 2"
  by code_simp

text \<open>The model on the repository's own tests: the keys \<^verbatim>\<open>TestHash\<close> expects, and the
  matches and offsets \<^verbatim>\<open>TestFind\<close> expects.\<close>

lemma repository_TestHash:
  "map (hash gc_ascii)
     [runes ''golang developer'', runes ''San Francisco, USA'', runes ''PHP'', [26412, 35486],
      runes ''C''] =
   map Inr [runes ''gol016'', runes ''san018'', runes ''php003'', [26412, 35486] @ runes ''002'',
      runes ''c001'']"
  by code_simp

lemma repository_TestFind:
  "(case add_all gc_ascii (New [''locations'', ''jobTitles'']) test_calls of
      Inl e \<Rightarrow> False
    | Inr s \<Rightarrow>
        (case FindAll gc_ascii s test_text of
           Inl e \<Rightarrow> False
         | Inr res \<Rightarrow>
             lookup res ''locations'' = [\<lparr>Text = runes ''San Francisco, USA'', Offset = 60\<rparr>] \<and>
             lookup res ''jobTitles'' = [\<lparr>Text = runes ''golang developer'', Offset = 17\<rparr>] \<and>
             lookup res ''skills'' =
               [\<lparr>Text = [26412, 35486], Offset = 2\<rparr>, \<lparr>Text = runes ''PHP'', Offset = 104\<rparr>] \<and>
             lookup res ''last'' = [\<lparr>Text = runes ''Shipway'', Offset = 122\<rparr>]))"
  by code_simp

section \<open>Occurrences and matches\<close>

text \<open>
  Claim C1, as stated, fails on the code. Three inputs, all with the phrase registered
  in group \<^verbatim>\<open>skills\<close> and occurring in the text as a whole word between separators or
  text boundaries (\<open>occurs_at\<close>), and all searched with an empty result for the group:
  the occurrence is the first word of the text (the walk only runs once the window
  holds more than one span); the occurrence reaches the end of the text (a word is
  closed only by a separator); the phrase has 31 code points (a candidate longer than
  \<^verbatim>\<open>MaxEntityLen\<close> ends the walk).
\<close>

theorem C1_counterexample:
  "add_all gc_ascii (New [''skills'']) [(''skills'', [runes ''PHP''])] = Inr php_store \<and>
   occurs_at gc_ascii (runes ''php, x '') (runes ''PHP'') 0 \<and>
   FindAll gc_ascii php_store (runes ''php, x '') = Inr [''skills'' \<mapsto> []] \<and>
   occurs_at gc_ascii (runes ''x php'') (runes ''PHP'') 2 \<and>
   FindAll gc_ascii php_store (runes ''x php'') = Inr [''skills'' \<mapsto> []] \<and>
   add_all gc_ascii (New [''skills'']) [(''skills'', [long_phrase])] = Inr long_store \<and>
   occurs_at gc_ascii (runes ''x abcdefghijklmnopqrstuvwxyzabcde '') long_phrase 2 \<and>
   FindAll gc_ascii long_store (runes ''x abcdefghijklmnopqrstuvwxyzabcde '') =
     Inr [''skills'' \<mapsto> []]"
proof -
  have "occurs_at gc_ascii (runes ''php, x '') (runes ''PHP'') 0" by code_simp
  moreover have "FindAll gc_ascii php_store (runes ''php, x '') = Inr [''skills'' \<mapsto> []]"
    by (simp add: eval_defs php_store_def)
  moreover have "occurs_at gc_ascii (runes ''x php'') (runes ''PHP'') 2" by code_simp
  moreover have "FindAll gc_ascii php_store (runes ''x php'') = Inr [''skills'' \<mapsto> []]"
    by (simp add: eval_defs php_store_def)
  moreover have "occurs_at gc_ascii (runes ''x abcdefghijklmnopqrstuvwxyzabcde '') long_phrase 2"
    by code_simp
  moreover have "FindAll gc_ascii long_store (runes ''x abcdefghijklmnopqrstuvwxyzabcde '') =
      Inr [''skills'' \<mapsto> []]"
    by (simp add: eval_defs long_store_def long_phrase_def)
  ultimately show ?thesis using php_store_built long_store_built by simp
qed

text \<open>
  Claim C1, amended. For every phrase \<open>P\<close> added to a group of a store built by \<open>New\<close> and
  \<open>Add\<close>, and every text that contains \<open>P\<close>, up to case, as a sequence of whole words
  at offset \<open>off\<close>, where the occurrence is at most \<^verbatim>\<open>MaxEntityLen\<close> code points long, is
  followed by a separator, and is not over before any word of the text has ended
  (\<open>reported_at\<close>): \<open>FindAll\<close> returns for the group a match whose offset is \<open>off\<close> and
  whose text is the slice of the input at that position, in the input's casing.
\<close>

theorem C1_reported_occurrence_found:
  assumes "add_all G (New names) calls = Inr s" "P \<in> set (phrases_of name calls)"
    "reported_at G rs P off"
  shows "\<exists>res. FindAll G s rs = Inr res \<and> occurrence rs P off \<in> set (lookup res name)"
proof -
  from FindAll_count [OF assms] obtain res where
    r: "FindAll G s rs = Inr res" and
    c: "count_list (lookup res name) (occurrence rs P off) =
          length (filter (same_phrase G P) (phrases_of name calls))"
    by blast
  have "P \<in> set (filter (same_phrase G P) (phrases_of name calls))"
    using assms(2) by (simp add: same_phrase_def)
  then have "filter (same_phrase G P) (phrases_of name calls) \<noteq> []"
    by (metis empty_iff empty_set)
  with c have "count_list (lookup res name) (occurrence rs P off) \<noteq> 0" by simp
  then have "occurrence rs P off \<in> set (lookup res name)" by (simp add: count_list_0_iff)
  with r show ?thesis by blast
qed

theorem C1_reported_occurrence_found_witness:
  "reported_at gc_ascii (runes ''x php, '') (runes ''PHP'') 2 \<and>
   occurrence (runes ''x php, '') (runes ''PHP'') 2 = \<lparr>Text = runes ''php'', Offset = 2\<rparr> \<and>
   (\<exists>res. FindAll gc_ascii php_store (runes ''x php, '') = Inr res \<and>
      occurrence (runes ''x php, '') (runes ''PHP'') 2 \<in> set (lookup res ''skills''))"
proof -
  have m: "runes ''PHP'' \<in> set (phrases_of ''skills'' [(''skills'', [runes ''PHP''])])"
    by (simp add: phrases_of_def)
  have "occurrence (runes ''x php, '') (runes ''PHP'') 2 = \<lparr>Text = runes ''php'', Offset = 2\<rparr>"
    by (simp add: occurrence_def runes_def)
  with C1_reported_occurrence_found [OF php_store_built m php_reported] php_reported
  show ?thesis by simp
qed

text \<open>
  Claim C10, as stated, fails on the code where claim C1 does: with the phrase added
  twice, in two casings, its occurrence as the first word of the text produces no match
  record, not two.
\<close>

theorem C10_counterexample:
  "add_all gc_ascii (New [''skills'']) [(''skills'', [runes ''PHP'', runes ''php''])] = Inr dup_store \<and>
   length (filter (same_phrase gc_ascii (runes ''PHP''))
     (phrases_of ''skills'' [(''skills'', [runes ''PHP'', runes ''php''])])) = 2 \<and>
   occurs_at gc_ascii (runes ''php, x '') (runes ''PHP'') 0 \<and>
   FindAll gc_ascii dup_store (runes ''php, x '') = Inr [''skills'' \<mapsto> []]"
proof -
  have "length (filter (same_phrase gc_ascii (runes ''PHP''))
     (phrases_of ''skills'' [(''skills'', [runes ''PHP'', runes ''php''])])) = 2"
    by (simp add: same_phrase_def phrases_of_def gc_ascii_def runes_def)
  moreover have "occurs_at gc_ascii (runes ''php, x '') (runes ''PHP'') 0" by code_simp
  moreover have "FindAll gc_ascii dup_store (runes ''php, x '') = Inr [''skills'' \<mapsto> []]"
    by (simp add: eval_defs dup_store_def)
  ultimately show ?thesis using dup_store_built by simp
qed

text \<open>
  Claim C10, amended. In a store built by \<open>New\<close> and \<open>Add\<close>, if \<open>k\<close> of the phrases added
  to a group are the phrase \<open>P\<close> up to case, then every occurrence of \<open>P\<close> that the
  search reports (\<open>reported_at\<close>: whole words, at most \<^verbatim>\<open>MaxEntityLen\<close> code points,
  followed by a separator, not over before any word of the text has ended) has
  exactly \<open>k\<close> match records in the result of \<open>FindAll\<close> for that group.
\<close>

theorem C10_duplicates_reported_each:
  assumes "add_all G (New names) calls = Inr s" "P \<in> set (phrases_of name calls)"
    "reported_at G rs P off"
  shows "\<exists>res. FindAll G s rs = Inr res \<and>
     count_list (lookup res name) (occurrence rs P off) =
       length (filter (same_phrase G P) (phrases_of name calls))"
  using assms by (rule FindAll_count)

theorem C10_duplicates_reported_each_witness:
  "reported_at gc_ascii (runes ''x php, '') (runes ''PHP'') 2 \<and>
   FindAll gc_ascii dup_store (runes ''x php, '') =
     Inr [''skills'' \<mapsto> [\<lparr>Text = runes ''php'', Offset = 2\<rparr>, \<lparr>Text = runes ''php'', Offset = 2\<rparr>]] \<and>
   (\<exists>res. FindAll gc_ascii dup_store (runes ''x php, '') = Inr res \<and>
      count_list (lookup res ''skills'') (occurrence (runes ''x php, '') (runes ''PHP'') 2) = 2)"
proof -
  have m: "runes ''PHP'' \<in> set (phrases_of ''skills'' [(''skills'', [runes ''PHP'', runes ''php''])])"
    by (simp add: phrases_of_def)
  have k: "length (filter (same_phrase gc_ascii (runes ''PHP''))
     (phrases_of ''skills'' [(''skills'', [runes ''PHP'', runes ''php''])])) = 2"
    by (simp add: same_phrase_def phrases_of_def gc_ascii_def runes_def)
  have e: "FindAll gc_ascii dup_store (runes ''x php, '') =
     Inr [''skills'' \<mapsto> [\<lparr>Text = runes ''php'', Offset = 2\<rparr>, \<lparr>Text = runes ''php'', Offset = 2\<rparr>]]"
    by (simp add: eval_defs dup_store_def)
  from C10_duplicates_reported_each [OF dup_store_built m php_reported] k e php_reported
  show ?thesis by simp
qed

section \<open>The window and the bucket scan at their edges\<close>

text \<open>
  The window grows past 20 spans under any runtime whose \<^verbatim>\<open>append\<close> allocates more than
  the one element asked for when it copies the 19 spans of \<^verbatim>\<open>s[1:]\<close> (the Go runtimes
  grow a small slice to about twice its capacity): after 22 words it holds 21 spans.
  The matches do not depend on it (\<open>walk_hits_window\<close>): 20 spans already cover more
  than \<^verbatim>\<open>MaxEntityLen\<close> code points.
\<close>

lemma words_22: "words 22 = runes ''a a a a a a a a a a a a a a a a a a a a a a ''"
  by code_simp

lemma Suc_20:
  "Suc (Suc (Suc (Suc (Suc (Suc (Suc (Suc (Suc (Suc (Suc (Suc (Suc (Suc (Suc (Suc (Suc (Suc
     (Suc (Suc 0))))))))))))))))))) = 20"
  by simp

lemma window_grows_any_runtime:
  assumes "20 < f 19 20"
  shows "\<exists>st. find_state (gc_ascii\<lparr>growslice := f\<rparr>) (words 22) [] = Inr st \<and>
           length (fst (pairs st)) = 21"
  using assms unfolding words_22
  by (simp add: eval_defs) (simp add: Suc_20)

text \<open>
  Claim C3: the window holds at most 20 spans. Evaluated with the growth rule of the gc
  runtime on a text of one-letter words: when the 21st word closes the window is full
  (\<^verbatim>\<open>len(s) == cap(s)\<close>), the oldest span \<open>(0, 1)\<close> is dropped and 20 spans remain, but
  \<^verbatim>\<open>append(s[1:], n)\<close> had to allocate, so the slice now has room to spare; when the 22nd
  word closes \<^verbatim>\<open>len(s) \<noteq> cap(s)\<close>, nothing is dropped, and the window holds 21 spans.
\<close>

theorem C3_window_grows_past_capacity:
  "\<not> isl (find_state gc_ascii (words 21) []) \<and>
   length (fst (pairs (projr (find_state gc_ascii (words 21) [])))) = 20 \<and>
   hd (fst (pairs (projr (find_state gc_ascii (words 21) [])))) = (2, 3) \<and>
   \<not> isl (find_state gc_ascii (words 22) []) \<and>
   length (fst (pairs (projr (find_state gc_ascii (words 22) [])))) = 21 \<and>
   hd (fst (pairs (projr (find_state gc_ascii (words 22) [])))) = (2, 3)"
  by code_simp

text \<open>
  Claim C6: a phrase of another length is discarded alone and the rest of the bucket
  is still compared. Evaluated on a bucket that holds \<^verbatim>\<open>"ab"\<close> and \<^verbatim>\<open>"abc"\<close> under the key
  of \<^verbatim>\<open>"abc"\<close>, with the text \<^verbatim>\<open>"x abc "\<close>: with \<^verbatim>\<open>"ab"\<close> first the scan leaves the loop at
  it and \<^verbatim>\<open>"abc"\<close> is never compared, so nothing is found; with \<^verbatim>\<open>"abc"\<close> first the match
  is found.
\<close>

theorem C6_length_mismatch_ends_scan:
  "find gc_ascii (runes ''x abc '') [bucket_group [runes ''ab'', runes ''abc'']] = Inr Map.empty \<and>
   find gc_ascii (runes ''x abc '') [bucket_group [runes ''abc'', runes ''ab'']] =
     Inr [''g'' \<mapsto> [\<lparr>Text = runes ''abc'', Offset = 2\<rparr>]]"
  by (simp add: eval_defs bucket_group_def)

end
